theory Spec2Isabelle
  imports Main "HOL-Library.AList" "HOL-Library.Multiset" "HOL-Library.Sublist"
begin

section \<open>The lem-in router of \<^verbatim>\<open>main.go\<close>\<close>

text \<open>
  Go values are modelled as follows.  A slice \<^verbatim>\<open>[]T\<close> is a list; \<^verbatim>\<open>int\<close> is \<^typ>\<open>int\<close> where
  the sign matters (ant counts, ant ids) and \<^typ>\<open>nat\<close> for lengths and indices; a Go map
  is an association list with distinct keys, updated with \<^const>\<open>AList.update\<close> and read
  with \<^const>\<open>map_of\<close>; a run-time panic is the left summand of a sum type.
\<close>

datatype panic = IndexOutOfRange

subsection \<open>\<^verbatim>\<open>distributeAnts\<close>\<close>

text \<open>
  The inner loop \<^verbatim>\<open>for i, load := range loads { if load < minLoad { ... } }\<close>.
  The arguments are the part of \<^verbatim>\<open>loads\<close> still to be visited, the index \<^verbatim>\<open>i\<close>, and
  the current \<^verbatim>\<open>minLoad\<close> and \<^verbatim>\<open>minIndex\<close>.
\<close>

fun scanMinLoad :: "nat list \<Rightarrow> nat \<Rightarrow> nat \<Rightarrow> nat \<Rightarrow> nat \<times> nat" where
  "scanMinLoad [] i minLoad minIndex = (minLoad, minIndex)"
| "scanMinLoad (load # rest) i minLoad minIndex =
     (if load < minLoad then scanMinLoad rest (Suc i) load i
      else scanMinLoad rest (Suc i) minLoad minIndex)"

text \<open>
  The outer loop \<^verbatim>\<open>for antIndex := 1; antIndex <= ants; antIndex++\<close>.  Reading
  \<^verbatim>\<open>loads[0]\<close> in an empty slice panics, and so would \<^verbatim>\<open>paths[minIndex]\<close> out of range.
\<close>

function distributeLoop ::
  "string list list \<Rightarrow> int \<Rightarrow> int \<Rightarrow> nat list \<Rightarrow> (int \<times> string list) list
     \<Rightarrow> panic + (int \<times> string list) list" where
  "distributeLoop paths ants antIndex loads assignment =
     (if antIndex \<le> ants then
        (case loads of
           [] \<Rightarrow> Inl IndexOutOfRange
         | load0 # _ \<Rightarrow>
             (case scanMinLoad loads 0 load0 0 of
                (minLoad, minIndex) \<Rightarrow>
                  if minIndex < length paths then
                    distributeLoop paths ants (antIndex + 1)
                      (loads[minIndex := Suc (loads ! minIndex)])
                      (AList.update antIndex (paths ! minIndex) assignment)
                  else Inl IndexOutOfRange))
      else Inr assignment)"
  by pat_completeness auto
termination
  by (relation "measure (\<lambda>(paths, ants, antIndex, loads, assignment). nat (ants + 1 - antIndex))")
    auto

definition distributeAnts :: "string list list \<Rightarrow> int \<Rightarrow> panic + (int \<times> string list) list" where
  "distributeAnts paths ants = distributeLoop paths ants 1 (map length paths) []"

subsection \<open>The run-time library\<close>

text \<open>
  Two things the program takes from the Go run time are not functions of the source:
  the order in which \<^verbatim>\<open>range\<close> visits the entries of a map, and the algorithm behind
  \<^verbatim>\<open>sort.Slice\<close> (which is not stable).  They are parameters of the model.  A run time is
  admissible when \<^verbatim>\<open>range\<close> visits every entry once and \<^verbatim>\<open>sort.Slice\<close> returns a
  permutation of its argument in which no element is less than an earlier one.
\<close>

record runtime =
  sortPaths :: "string list list \<Rightarrow> string list list"
  sortAssignments :: "(int \<times> string list) list \<Rightarrow> (int \<times> string list) list"
  rangeAssignment :: "(int \<times> string list) list \<Rightarrow> (int \<times> string list) list"
  rangeConnections :: "(string \<times> string list) list \<Rightarrow> (string \<times> string list) list"

definition runtime_ok :: "runtime \<Rightarrow> bool" where
  "runtime_ok rt \<longleftrightarrow>
     (\<forall>ps. mset (sortPaths rt ps) = mset ps \<and>
           sorted_wrt (\<lambda>p q. \<not> length q < length p) (sortPaths rt ps)) \<and>
     (\<forall>as. mset (sortAssignments rt as) = mset as \<and>
           sorted_wrt (\<lambda>a b. \<not> fst b < fst a) (sortAssignments rt as)) \<and>
     (\<forall>m. mset (rangeAssignment rt m) = mset m) \<and>
     (\<forall>m. mset (rangeConnections rt m) = mset m)"

text \<open>
  A concrete run time: \<^verbatim>\<open>range\<close> in insertion order, and the insertion sort that
  \<^verbatim>\<open>sort.Slice\<close> runs on a slice of at most twelve elements
  (\<^verbatim>\<open>insertionSortLessFunc\<close>: every element is moved down while it is less than the one
  before it).
\<close>

text \<open>
  \<open>insertLess lt x ys\<close> moves \<open>x\<close> into the sorted part \<open>ys\<close>, which is kept with its last
  element first.
\<close>

fun insertLess :: "('a \<Rightarrow> 'a \<Rightarrow> bool) \<Rightarrow> 'a \<Rightarrow> 'a list \<Rightarrow> 'a list" where
  "insertLess lt x [] = [x]"
| "insertLess lt x (y # ys) = (if lt x y then y # insertLess lt x ys else x # y # ys)"

definition insertionSort :: "('a \<Rightarrow> 'a \<Rightarrow> bool) \<Rightarrow> 'a list \<Rightarrow> 'a list" where
  "insertionSort lt xs = rev (foldl (\<lambda>done x. insertLess lt x done) [] xs)"

definition smallRuntime :: runtime where
  "smallRuntime =
     \<lparr> sortPaths = insertionSort (\<lambda>p q. length p < length q),
       sortAssignments = insertionSort (\<lambda>a b. fst a < fst b),
       rangeAssignment = (\<lambda>m. m),
       rangeConnections = (\<lambda>m. m) \<rparr>"

subsection \<open>\<^verbatim>\<open>getAntMoves\<close>\<close>

text \<open>
  The state of the simulator.  \<^verbatim>\<open>antPositions\<close>, \<^verbatim>\<open>roomFull\<close> and \<^verbatim>\<open>tunnelsUsed\<close> are Go
  maps that the code only reads and writes by key; reading a missing key gives the zero
  value, so they are total functions that start as the constant \<open>0\<close>, \<open>False\<close> and \<open>''''\<close>.
  \<^verbatim>\<open>moveStrings\<close> holds the pairs \<open>(id, room)\<close>; the token \<^verbatim>\<open>L<id>-<room>\<close> is printed from
  a pair when the line of the turn is written.
\<close>

record turnState =
  antPositions :: "int \<Rightarrow> nat"
  roomFull :: "string \<Rightarrow> bool"
  tunnelsUsed :: "string \<Rightarrow> string"
  moveStrings :: "(int \<times> string) list"
  finishedAnts :: nat

text \<open>
  The body of \<^verbatim>\<open>for i := range assignments\<close>, for the ant \<open>(AntID, Path)\<close>.  The test
  \<^verbatim>\<open>currentPosition < len(Path)-1\<close> is over Go's signed integers (an empty path gives
  \<open>-1\<close>), which is \<open>currentPosition + 1 < len(Path)\<close> over the naturals.
\<close>

definition moveAnt :: "string \<Rightarrow> turnState \<Rightarrow> int \<times> string list \<Rightarrow> turnState" where
  "moveAnt end st a =
     (let currentPosition = antPositions st (fst a) in
      if Suc currentPosition < length (snd a) then
        (let nextPosition = Suc currentPosition;
             currentRoom = snd a ! currentPosition;
             nextRoom = snd a ! nextPosition in
         if \<not> roomFull st nextRoom \<and> tunnelsUsed st currentRoom \<noteq> nextRoom then
           st \<lparr> antPositions := (antPositions st)(fst a := nextPosition),
                moveStrings := moveStrings st @ [(fst a, nextRoom)],
                roomFull := (if nextRoom \<noteq> end then (roomFull st)(nextRoom := True)
                             else roomFull st)(currentRoom := False),
                tunnelsUsed := (tunnelsUsed st)(currentRoom := nextRoom) \<rparr>
         else st)
      else st \<lparr> finishedAnts := Suc (finishedAnts st) \<rparr>)"

text \<open>
  One pass of the outer \<^verbatim>\<open>for\<close>: \<^verbatim>\<open>tunnelsUsed\<close>, \<^verbatim>\<open>moveStrings\<close> and \<^verbatim>\<open>finishedAnts\<close> start
  afresh, the positions and \<^verbatim>\<open>roomFull\<close> are those the turn before left.
\<close>

definition runTurn ::
  "string \<Rightarrow> (int \<times> string list) list \<Rightarrow> (int \<Rightarrow> nat) \<Rightarrow> (string \<Rightarrow> bool) \<Rightarrow> turnState" where
  "runTurn end assignments positions full =
     foldl (moveAnt end)
       \<lparr> antPositions = positions, roomFull = full, tunnelsUsed = (\<lambda>_. []),
         moveStrings = [], finishedAnts = 0 \<rparr>
       assignments"

text \<open>
  The outer \<^verbatim>\<open>for { ... }\<close>, which only \<^verbatim>\<open>break\<close> leaves; \<open>None\<close> is a loop that never
  ends.  \<open>antMoves\<close> collects the turns that moved an ant.
\<close>

partial_function (option) turnLoop ::
  "string \<Rightarrow> (int \<times> string list) list \<Rightarrow> (int \<Rightarrow> nat) \<Rightarrow> (string \<Rightarrow> bool)
     \<Rightarrow> (int \<times> string) list list \<Rightarrow> (int \<times> string) list list option" where
  "turnLoop end assignments positions full antMoves =
     (let st = runTurn end assignments positions full;
          antMoves' = (if moveStrings st \<noteq> [] then antMoves @ [moveStrings st] else antMoves) in
      if finishedAnts st = length assignments then Some antMoves'
      else turnLoop end assignments (antPositions st) (roomFull st) antMoves')"

text \<open>\<^verbatim>\<open>fmt.Sprintf("L%d-%s", id, room)\<close> and \<^verbatim>\<open>strings.Join(moveStrings, " ") + "\n"\<close>.\<close>

fun showNat :: "nat \<Rightarrow> string" where
  "showNat n = (if n < 10 then [''0123456789'' ! n]
                else showNat (n div 10) @ [''0123456789'' ! (n mod 10)])"

definition showInt :: "int \<Rightarrow> string" where
  "showInt i = (if i < 0 then CHR ''-'' # showNat (nat (- i)) else showNat (nat i))"

definition moveString :: "int \<times> string \<Rightarrow> string" where
  "moveString m = ''L'' @ showInt (fst m) @ ''-'' @ snd m"

fun joinStrings :: "string list \<Rightarrow> string \<Rightarrow> string" where
  "joinStrings [] sep = []"
| "joinStrings [s] sep = s"
| "joinStrings (s # t # ss) sep = s @ sep @ joinStrings (t # ss) sep"

definition turnLine :: "(int \<times> string) list \<Rightarrow> string" where
  "turnLine ms = joinStrings (map moveString ms) '' '' @ [CHR 0x0A]"

text \<open>
  \<^verbatim>\<open>simulate\<close> is \<^verbatim>\<open>getAntMoves\<close> before the text is written: the entries of the map in
  the order \<^verbatim>\<open>range\<close> gives them, sorted by ant id, then the loop.
\<close>

definition simulate ::
  "runtime \<Rightarrow> (int \<times> string list) list \<Rightarrow> string \<Rightarrow> (int \<times> string) list list option" where
  "simulate rt originalAssignment end =
     turnLoop end (sortAssignments rt (rangeAssignment rt originalAssignment))
       (\<lambda>_. 0) (\<lambda>_. False) []"

definition getAntMoves :: "runtime \<Rightarrow> (int \<times> string list) list \<Rightarrow> string \<Rightarrow> string option" where
  "getAntMoves rt originalAssignment end =
     map_option (\<lambda>turns. concat (map turnLine turns)) (simulate rt originalAssignment end)"


subsection \<open>The graph\<close>

record Room =
  Name :: string
  X :: int
  Y :: int
  IsStart :: bool
  IsEnd :: bool

record Graph =
  Rooms :: "(string \<times> Room) list"
  Connections :: "(string \<times> string list) list"
  AntCount :: int
  StartRoom :: string
  EndRoom :: string

definition NewGraph :: Graph where
  "NewGraph = \<lparr> Rooms = [], Connections = [], AntCount = 0, StartRoom = [], EndRoom = [] \<rparr>"

text \<open>\<^verbatim>\<open>g.Connections[room]\<close>: a missing key reads as the empty slice.\<close>

definition connectionsOf :: "Graph \<Rightarrow> string \<Rightarrow> string list" where
  "connectionsOf g room = (case map_of (Connections g) room of None \<Rightarrow> [] | Some ns \<Rightarrow> ns)"

text \<open>A Go \<^verbatim>\<open>error\<close> is the left summand, with the text \<^verbatim>\<open>fmt.Errorf\<close> gave it.\<close>

definition AddRoom :: "Graph \<Rightarrow> string \<Rightarrow> int \<Rightarrow> int \<Rightarrow> bool \<Rightarrow> bool \<Rightarrow> string + Graph" where
  "AddRoom g name x y isStart isEnd =
     (if map_of (Rooms g) name \<noteq> None then Inl (''duplicate room: '' @ name)
      else Inr (g \<lparr> Rooms := AList.update name
                        \<lparr> Name = name, X = x, Y = y, IsStart = isStart, IsEnd = isEnd \<rparr> (Rooms g),
                    StartRoom := (if isStart then name else StartRoom g),
                    EndRoom := (if isEnd then name else EndRoom g) \<rparr>))"

definition AddConnection :: "Graph \<Rightarrow> string \<Rightarrow> string \<Rightarrow> string + Graph" where
  "AddConnection g roomA roomB =
     (if map_of (Rooms g) roomA = None then Inl (''invalid connection: '' @ roomA @ '' - '' @ roomB)
      else if map_of (Rooms g) roomB = None then Inl (''invalid connection: '' @ roomA @ '' - '' @ roomB)
      else
        (let g1 = g \<lparr> Connections := AList.update roomA (connectionsOf g roomA @ [roomB]) (Connections g) \<rparr>
         in Inr (g1 \<lparr> Connections := AList.update roomB (connectionsOf g1 roomB @ [roomA]) (Connections g1) \<rparr>)))"

subsection \<open>\<^verbatim>\<open>findAllPaths\<close> and \<^verbatim>\<open>findShortestPaths\<close>\<close>

text \<open>
  \<^verbatim>\<open>findAllPaths\<close> writes to the map \<^verbatim>\<open>visited\<close> and to the slice behind \<^verbatim>\<open>allPaths\<close>;
  both are passed in and returned.  \<^verbatim>\<open>path\<close> is a slice header passed by value: what the
  callee appends is not seen by the caller.  \<^verbatim>\<open>visitNeighbors\<close> is the loop
  \<^verbatim>\<open>for _, neighbor := range graph.Connections[currentRoom]\<close>.
\<close>

function findAllPaths ::
    "Graph \<Rightarrow> string \<Rightarrow> (string \<Rightarrow> bool) \<Rightarrow> string list \<Rightarrow> string list list
       \<Rightarrow> (string \<Rightarrow> bool) \<times> string list list"
  and visitNeighbors ::
    "Graph \<Rightarrow> string list \<Rightarrow> (string \<Rightarrow> bool) \<Rightarrow> string list \<Rightarrow> string list list
       \<Rightarrow> (string \<Rightarrow> bool) \<times> string list list" where
  "findAllPaths graph currentRoom visited path allPaths =
     (if currentRoom = EndRoom graph
      then ((visited(currentRoom := True))(currentRoom := False), allPaths @ [path @ [currentRoom]])
      else
        (case visitNeighbors graph (connectionsOf graph currentRoom) (visited(currentRoom := True))
                (path @ [currentRoom]) allPaths of
           (visited', allPaths') \<Rightarrow> (visited'(currentRoom := False), allPaths')))"
| "visitNeighbors graph [] visited path allPaths = (visited, allPaths)"
| "visitNeighbors graph (neighbor # rest) visited path allPaths =
     (if \<not> visited neighbor
      then (case findAllPaths graph neighbor visited path allPaths of
              (visited', allPaths') \<Rightarrow> visitNeighbors graph rest visited' path allPaths')
      else visitNeighbors graph rest visited path allPaths)"
  by pat_completeness auto

text \<open>
  The recursion ends because every call marks a room of the (finite) connection table that
  was not marked, and a call leaves \<^verbatim>\<open>visited\<close> as it found it.
\<close>

definition reachable :: "Graph \<Rightarrow> string set" where
  "reachable g = \<Union> (set ` snd ` set (Connections g))"

lemma connectionsOf_reachable: "set (connectionsOf g r) \<subseteq> reachable g"
proof (cases "map_of (Connections g) r")
  case None
  then show ?thesis by (simp add: connectionsOf_def)
next
  case (Some ns)
  then have "(r, ns) \<in> set (Connections g)" by (rule map_of_SomeD)
  then have "set ns \<subseteq> reachable g" unfolding reachable_def by force
  then show ?thesis using Some by (simp add: connectionsOf_def)
qed

lemma finite_reachable [simp]: "finite (reachable g)"
  by (simp add: reachable_def)

lemma visited_restored:
  "findAllPaths_visitNeighbors_dom (Inl (graph, currentRoom, visited, path, allPaths)) \<Longrightarrow>
     \<not> visited currentRoom \<Longrightarrow> fst (findAllPaths graph currentRoom visited path allPaths) = visited"
  "findAllPaths_visitNeighbors_dom (Inr (graph, ns, visited, path, allPaths)) \<Longrightarrow>
     fst (visitNeighbors graph ns visited path allPaths) = visited"
proof (induction graph currentRoom visited path allPaths and graph ns visited path allPaths
    rule: findAllPaths_visitNeighbors.pinduct)
  case (1 graph currentRoom visited path allPaths)
  show ?case
  proof (cases "currentRoom = EndRoom graph")
    case True
    then show ?thesis using "1.hyps" "1.prems" by (simp add: findAllPaths.psimps fun_upd_idem)
  next
    case False
    obtain v' a' where r: "visitNeighbors graph (connectionsOf graph currentRoom)
        (visited(currentRoom := True)) (path @ [currentRoom]) allPaths = (v', a')"
      by (cases "visitNeighbors graph (connectionsOf graph currentRoom)
        (visited(currentRoom := True)) (path @ [currentRoom]) allPaths")
    have "v' = visited(currentRoom := True)" using "1.IH"[OF False] r by (metis fst_conv)
    then show ?thesis using "1.hyps" "1.prems" False r by (simp add: findAllPaths.psimps fun_upd_idem)
  qed
next
  case (2 graph visited path allPaths)
  then show ?case by (simp add: visitNeighbors.psimps)
next
  case (3 graph neighbor rest visited path allPaths)
  show ?case
  proof (cases "visited neighbor")
    case True
    then show ?thesis using "3.hyps" "3.IH"(3) by (simp add: visitNeighbors.psimps)
  next
    case False
    obtain v' a' where r: "findAllPaths graph neighbor visited path allPaths = (v', a')"
      by (cases "findAllPaths graph neighbor visited path allPaths")
    have v: "v' = visited" using "3.IH"(1)[OF False False] r by simp
    have "fst (visitNeighbors graph rest v' path a') = v'"
      using "3.IH"(2)[OF False r[symmetric]] .
    then show ?thesis using "3.hyps" False r v by (simp add: visitNeighbors.psimps)
  qed
qed

definition unvisitedCount :: "string set \<Rightarrow> (string \<Rightarrow> bool) \<Rightarrow> nat" where
  "unvisitedCount rooms visited = card {r \<in> rooms. \<not> visited r}"

lemma unvisitedCount_mono:
  "finite B \<Longrightarrow> A \<subseteq> B \<Longrightarrow> unvisitedCount A v \<le> unvisitedCount B v"
  unfolding unvisitedCount_def by (intro card_mono) auto

lemma unvisitedCount_mark:
  assumes "finite B" "A \<subseteq> B" "n \<in> B" "\<not> v n"
  shows "unvisitedCount A (v(n := True)) < unvisitedCount B v"
proof -
  have "{r \<in> A. \<not> (v(n := True)) r} \<subset> {r \<in> B. \<not> v r}" using assms by auto
  then show ?thesis unfolding unvisitedCount_def using assms(1) by (intro psubset_card_mono) auto
qed

termination findAllPaths
proof (relation "inv_image (less_than <*lex*> less_than <*lex*> less_than)
    (\<lambda>x. case x of
       Inl (g, cur, v, p, a) \<Rightarrow> (unvisitedCount (reachable g) (v(cur := True)), Suc 0, 0)
     | Inr (g, ns, v, p, a) \<Rightarrow> (unvisitedCount (reachable g \<union> set ns) v, 0, length ns))", goal_cases)
  case 1
  show ?case by (intro wf_inv_image wf_lex_prod wf_less_than)
next
  case (2 graph currentRoom visited path allPaths)
  have "reachable graph \<union> set (connectionsOf graph currentRoom) = reachable graph"
    using connectionsOf_reachable[of graph currentRoom] by auto
  then show ?case by simp
next
  case (3 graph neighbor rest visited path allPaths)
  have "unvisitedCount (reachable graph) (visited(neighbor := True))
      < unvisitedCount (reachable graph \<union> set (neighbor # rest)) visited"
    by (rule unvisitedCount_mark) (use 3 in auto)
  then show ?case by simp
next
  case (4 graph neighbor rest visited path allPaths visited' allPaths')
  have "fst (findAllPaths graph neighbor visited path allPaths) = visited"
    using visited_restored(1)[OF 4(3) 4(1)] .
  then have x: "visited' = visited" using 4(2) by (metis fst_conv)
  have "unvisitedCount (reachable graph \<union> set rest) visited
      \<le> unvisitedCount (reachable graph \<union> set (neighbor # rest)) visited"
    by (rule unvisitedCount_mono) auto
  then show ?case unfolding x by auto
next
  case (5 graph neighbor rest visited path allPaths)
  have "unvisitedCount (reachable graph \<union> set rest) visited
      \<le> unvisitedCount (reachable graph \<union> set (neighbor # rest)) visited"
    by (rule unvisitedCount_mono) auto
  then show ?case by auto
qed

definition findShortestPaths :: "runtime \<Rightarrow> Graph \<Rightarrow> string \<Rightarrow> string list list" where
  "findShortestPaths rt graph start =
     sortPaths rt (snd (findAllPaths graph start (\<lambda>_. False) [] []))"

subsection \<open>\<^verbatim>\<open>calculateSolutionGroups\<close>\<close>

fun solutionsCompatible :: "string list \<Rightarrow> string list \<Rightarrow> string \<Rightarrow> string \<Rightarrow> bool" where
  "solutionsCompatible [] path2 start end = True"
| "solutionsCompatible (room1 # rest) path2 start end =
     (if room1 = start \<or> room1 = end then solutionsCompatible rest path2 start end
      else if list_ex (\<lambda>room2. room1 = room2) path2 then False
      else solutionsCompatible rest path2 start end)"

fun solutionCompatibleWithGroup ::
  "string list \<Rightarrow> string list list \<Rightarrow> string \<Rightarrow> string \<Rightarrow> bool" where
  "solutionCompatibleWithGroup candidate [] start end = True"
| "solutionCompatibleWithGroup candidate (path # rest) start end =
     (if \<not> solutionsCompatible path candidate start end then False
      else solutionCompatibleWithGroup candidate rest start end)"

text \<open>
  The inner loop \<^verbatim>\<open>for j, path2 := range paths\<close> of the group seeded with path \<open>i\<close>; the
  arguments are \<open>i\<close>, \<open>j\<close>, the paths from index \<open>j\<close> on, and the group so far.
\<close>

fun extendGroup ::
  "nat \<Rightarrow> nat \<Rightarrow> string list list \<Rightarrow> string list list \<Rightarrow> string \<Rightarrow> string \<Rightarrow> string list list" where
  "extendGroup i j [] grp start end = grp"
| "extendGroup i j (path2 # rest) grp start end =
     (if i = j then extendGroup i (Suc j) rest grp start end
      else if solutionCompatibleWithGroup path2 grp start end
           then extendGroup i (Suc j) rest (grp @ [path2]) start end
      else extendGroup i (Suc j) rest grp start end)"

text \<open>The outer loop \<^verbatim>\<open>for i, path1 := range paths\<close>, from index \<open>i\<close> on.\<close>

fun groupsFrom ::
  "nat \<Rightarrow> string list list \<Rightarrow> string list list \<Rightarrow> string \<Rightarrow> string \<Rightarrow> string list list list" where
  "groupsFrom i [] paths start end = []"
| "groupsFrom i (path1 # rest) paths start end =
     extendGroup i 0 paths [path1] start end # groupsFrom (Suc i) rest paths start end"

definition calculateSolutionGroups ::
  "string list list \<Rightarrow> string \<Rightarrow> string \<Rightarrow> string list list list" where
  "calculateSolutionGroups paths start end =
     (if length paths \<le> 1 then (if length paths = 1 then [paths] else [])
      else groupsFrom 0 paths paths start end)"

subsection \<open>The library functions \<^verbatim>\<open>readInput\<close> calls\<close>

text \<open>
  A Go string is its bytes (\<^typ>\<open>string\<close>).  \<^verbatim>\<open>strings.HasPrefix(line, "#")\<close>,
  \<^verbatim>\<open>strings.Contains(line, "-")\<close> and \<^verbatim>\<open>strings.Split(line, "-")\<close>:
\<close>

definition hasHashPrefix :: "string \<Rightarrow> bool" where
  "hasHashPrefix line = (case line of [] \<Rightarrow> False | c # _ \<Rightarrow> c = CHR ''#'')"

definition containsDash :: "string \<Rightarrow> bool" where
  "containsDash line = list_ex (\<lambda>c. c = CHR ''-'') line"

fun splitAt :: "char \<Rightarrow> string \<Rightarrow> string \<Rightarrow> string list" where
  "splitAt sep cur [] = [cur]"
| "splitAt sep cur (c # s) = (if c = sep then cur # splitAt sep [] s else splitAt sep (cur @ [c]) s)"

definition splitDash :: "string \<Rightarrow> string list" where
  "splitDash line = splitAt (CHR ''-'') [] line"

text \<open>
  \<^verbatim>\<open>strconv.Atoi\<close> on a 64-bit platform: an optional sign, then one or more decimal
  digits and nothing else, and a value that fits \<^verbatim>\<open>int\<close>; \<open>None\<close> is a non-nil error.
\<close>

definition isDigit :: "char \<Rightarrow> bool" where
  "isDigit c \<longleftrightarrow> c \<in> set ''0123456789''"

definition digitValue :: "char \<Rightarrow> int" where
  "digitValue c = int (length (takeWhile (\<lambda>d. d \<noteq> c) ''0123456789''))"

definition digitsValue :: "string \<Rightarrow> int" where
  "digitsValue ds = foldl (\<lambda>n c. 10 * n + digitValue c) 0 ds"

definition Atoi :: "string \<Rightarrow> int option" where
  "Atoi s =
     (let neg = (case s of [] \<Rightarrow> False | c # _ \<Rightarrow> c = CHR ''-'');
          ds = (case s of [] \<Rightarrow> [] | c # r \<Rightarrow> if c = CHR ''-'' \<or> c = CHR ''+'' then r else s);
          v = (if neg then - digitsValue ds else digitsValue ds)
      in if ds = [] \<or> \<not> list_all isDigit ds then None
         else if v < - (2 ^ 63) \<or> 2 ^ 63 \<le> v then None
         else Some v)"

text \<open>
  \<^verbatim>\<open>strings.Fields\<close> splits around runs of white space as \<^verbatim>\<open>unicode.IsSpace\<close> defines it.
  \<open>spaceWidth s\<close> is the number of bytes of the white-space character that \<open>s\<close> starts
  with (\<open>0\<close> if it starts with none): the six of ASCII, and in UTF-8 U+0085, U+00A0,
  U+1680, U+2000 to U+200A, U+2028, U+2029, U+202F, U+205F and U+3000.  These sequences
  start with a leading byte, which stands nowhere else in a well-formed character, and Go
  steps over one byte where the text is not UTF-8, so looking for them at every byte is
  the same as decoding.
\<close>

definition spaceWidth :: "string \<Rightarrow> nat" where
  "spaceWidth s =
     (case s of
        [] \<Rightarrow> 0
      | c # r \<Rightarrow>
          if c \<in> {CHR 0x09, CHR 0x0A, CHR 0x0B, CHR 0x0C, CHR 0x0D, CHR 0x20} then 1
          else if c = CHR 0xC2 \<and> take 1 r \<in> {[CHR 0x85], [CHR 0xA0]} then 2
          else if c = CHR 0xE1 \<and> take 2 r = [CHR 0x9A, CHR 0x80] then 3
          else if c = CHR 0xE2 \<and> take 1 r = [CHR 0x80] \<and>
                  take 1 (drop 1 r) \<in> {[CHR 0x80], [CHR 0x81], [CHR 0x82], [CHR 0x83], [CHR 0x84],
                    [CHR 0x85], [CHR 0x86], [CHR 0x87], [CHR 0x88], [CHR 0x89], [CHR 0x8A],
                    [CHR 0xA8], [CHR 0xA9], [CHR 0xAF]} then 3
          else if c = CHR 0xE2 \<and> take 2 r = [CHR 0x81, CHR 0x9F] then 3
          else if c = CHR 0xE3 \<and> take 2 r = [CHR 0x80, CHR 0x80] then 3
          else 0)"

text \<open>
  \<open>fieldsFrom skip cur s\<close>: \<open>skip\<close> bytes of a white-space character are still to be
  passed, \<open>cur\<close> is the field being read.
\<close>

fun fieldsFrom :: "nat \<Rightarrow> string \<Rightarrow> string \<Rightarrow> string list" where
  "fieldsFrom skip cur [] = (if cur = [] then [] else [cur])"
| "fieldsFrom (Suc k) cur (c # s) = fieldsFrom k cur s"
| "fieldsFrom 0 cur (c # s) =
     (case spaceWidth (c # s) of
        0 \<Rightarrow> fieldsFrom 0 (cur @ [c]) s
      | Suc k \<Rightarrow> (if cur = [] then fieldsFrom k [] s else cur # fieldsFrom k [] s))"

definition Fields :: "string \<Rightarrow> string list" where
  "Fields s = fieldsFrom 0 [] s"

subsection \<open>\<^verbatim>\<open>readInput\<close>\<close>

text \<open>
  What the program meets when it opens and scans the file: either the error of
  \<^verbatim>\<open>os.Open\<close>, or the lines \<^verbatim>\<open>scanner.Text()\<close> yields and the error \<^verbatim>\<open>scanner.Err()\<close>
  reports after them, if any (a line longer than the scanner's buffer).
\<close>

record scanned =
  scannedLines :: "string list"
  scanError :: "string option"

text \<open>
  Every way \<^verbatim>\<open>readInput\<close> ends the process, after the branch of the source that takes
  it.  \<open>RoomRejected\<close> carries the error of \<^verbatim>\<open>AddRoom\<close>.
\<close>

datatype failure =
    OpenFailed string
  | BadAntCount
  | BadConnection string
  | SelfReference string
  | IdenticalConnection string
  | BadRoomFormat string
  | BadX
  | BadY
  | RoomRejected string
  | ScanFailed string
  | MissingStartOrEnd

text \<open>
  The nested loops \<^verbatim>\<open>for key, vals := range graph.Connections { for _, val := range vals\<close>
  that look for the connection of a line among those already made; every hit takes the
  same exit.
\<close>

definition identicalConnection :: "runtime \<Rightarrow> Graph \<Rightarrow> string \<Rightarrow> string \<Rightarrow> bool" where
  "identicalConnection rt graph part0 part1 =
     list_ex (\<lambda>(key, vals). list_ex (\<lambda>val.
                (key = part0 \<and> val = part1) \<or> (key = part1 \<and> val = part0)) vals)
       (rangeConnections rt (Connections graph))"

text \<open>
  The loop \<^verbatim>\<open>for scanner.Scan()\<close>.  The state is the graph, \<^verbatim>\<open>lineNumber\<close> and the flags
  \<^verbatim>\<open>start\<close> and \<^verbatim>\<open>end\<close>.  The error \<^verbatim>\<open>graph.AddConnection\<close> returns is dropped by the
  source: the line is then skipped and the graph is unchanged.
\<close>

fun readLines ::
  "runtime \<Rightarrow> string list \<Rightarrow> Graph \<Rightarrow> nat \<Rightarrow> bool \<Rightarrow> bool \<Rightarrow> failure + Graph" where
  "readLines rt [] graph lineNumber start end = Inr graph"
| "readLines rt (line # rest) graph lineNumber start end =
     (if hasHashPrefix line then
        readLines rt rest graph lineNumber
          (if line = ''##start'' then True else start)
          (if line = ''##start'' then end else if line = ''##end'' then True else end)
      else if lineNumber = 0 then
        (case Atoi line of
           None \<Rightarrow> Inl BadAntCount
         | Some n \<Rightarrow>
             if n \<le> 0 then Inl BadAntCount
             else readLines rt rest (graph \<lparr> AntCount := n \<rparr>) (Suc lineNumber) start end)
      else if containsDash line then
        (let parts = splitDash line in
         if length parts \<noteq> 2 then Inl (BadConnection line)
         else if parts ! 0 = parts ! 1 then Inl (SelfReference line)
         else if identicalConnection rt graph (parts ! 0) (parts ! 1)
              then Inl (IdenticalConnection line)
         else readLines rt rest
                (case AddConnection graph (parts ! 0) (parts ! 1) of
                   Inl err \<Rightarrow> graph | Inr graph' \<Rightarrow> graph')
                lineNumber start end)
      else
        (let fields = Fields line in
         if length fields \<noteq> 3 then Inl (BadRoomFormat line)
         else
           (case Atoi (fields ! 1) of
              None \<Rightarrow> Inl BadX
            | Some x \<Rightarrow>
                (case Atoi (fields ! 2) of
                   None \<Rightarrow> Inl BadY
                 | Some y \<Rightarrow>
                     (case AddRoom graph (fields ! 0) x y start end of
                        Inl err \<Rightarrow> Inl (RoomRejected err)
                      | Inr graph' \<Rightarrow> readLines rt rest graph' lineNumber False False)))))"

definition readInput :: "runtime \<Rightarrow> string + scanned \<Rightarrow> failure + Graph" where
  "readInput rt file =
     (case file of
        Inl err \<Rightarrow> Inl (OpenFailed err)
      | Inr sc \<Rightarrow>
          (case readLines rt (scannedLines sc) NewGraph 0 False False of
             Inl f \<Rightarrow> Inl f
           | Inr graph \<Rightarrow>
               (case scanError sc of
                  Some err \<Rightarrow> Inl (ScanFailed err)
                | None \<Rightarrow>
                    if StartRoom graph = [] \<or> EndRoom graph = [] then Inl MissingStartOrEnd
                    else Inr graph)))"

subsection \<open>\<^verbatim>\<open>main\<close>\<close>

text \<open>
  What a run leaves behind: the exit status and the texts written to standard output and
  to the error stream, one element for every line-ending print call, without the final
  newline.
\<close>

record outcome =
  exitStatus :: int
  stdout :: "string list"
  stderr :: "string list"

text \<open>
  The print and the \<^verbatim>\<open>os.Exit\<close> of every failing branch of \<^verbatim>\<open>readInput\<close>.  All but the
  first come after the two lines printed once the file is open.
\<close>

definition banner :: "string list" where
  "banner = [''File opened successfully!'', []]"

fun readInputExit :: "failure \<Rightarrow> outcome" where
  "readInputExit (OpenFailed err) =
     \<lparr> exitStatus = 1, stdout = [], stderr = [''ERROR: '' @ err] \<rparr>"
| "readInputExit BadAntCount =
     \<lparr> exitStatus = 1,
       stdout = banner @ [''ERROR: invalid data format, number of ants must be a positive integer''],
       stderr = [] \<rparr>"
| "readInputExit (BadConnection line) =
     \<lparr> exitStatus = 1, stdout = banner @ [''ERROR: invalid connection: '' @ line], stderr = [] \<rparr>"
| "readInputExit (SelfReference line) =
     \<lparr> exitStatus = 0, stdout = banner @ [''ERROR: self referencing room: '' @ line], stderr = [] \<rparr>"
| "readInputExit (IdenticalConnection line) =
     \<lparr> exitStatus = 1,
       stdout = banner @ [''ERROR: invalid data format, identical connection already exists: '' @ line],
       stderr = [] \<rparr>"
| "readInputExit (BadRoomFormat line) =
     \<lparr> exitStatus = 1, stdout = banner @ [''ERROR: invalid room format: '' @ line], stderr = [] \<rparr>"
| "readInputExit BadX =
     \<lparr> exitStatus = 1, stdout = banner @ [''ERROR: invalid x coordinate''], stderr = [] \<rparr>"
| "readInputExit BadY =
     \<lparr> exitStatus = 1, stdout = banner @ [''ERROR: invalid y coordinate''], stderr = [] \<rparr>"
| "readInputExit (RoomRejected err) =
     \<lparr> exitStatus = 1, stdout = banner @ [''ERROR: '' @ err], stderr = [] \<rparr>"
| "readInputExit (ScanFailed err) =
     \<lparr> exitStatus = 0, stdout = banner @ [''ERROR: '' @ err], stderr = [] \<rparr>"
| "readInputExit MissingStartOrEnd =
     \<lparr> exitStatus = 0, stdout = banner @ [''ERROR: missing start or end room''], stderr = [] \<rparr>"

text \<open>\<^verbatim>\<open>debugPaths\<close>: one line \<^verbatim>\<open>Path <i+1>: <rooms joined by " ->">\<close> for every path.\<close>

fun debugPathLines :: "nat \<Rightarrow> string list list \<Rightarrow> string list" where
  "debugPathLines i [] = []"
| "debugPathLines i (path # rest) =
     (''Path '' @ showInt (int i + 1) @ '': '' @ joinStrings path '' ->'') # debugPathLines (Suc i) rest"

text \<open>
  The loop over the solution groups; \<open>None\<close> when \<^verbatim>\<open>getAntMoves\<close> never returns, a
  panic when \<^verbatim>\<open>distributeAnts\<close> panics.
\<close>

fun collectMoves ::
  "runtime \<Rightarrow> string list list list \<Rightarrow> int \<Rightarrow> string \<Rightarrow> (panic + string list) option" where
  "collectMoves rt [] ants end = Some (Inr [])"
| "collectMoves rt (solutionGroup # rest) ants end =
     (case distributeAnts solutionGroup ants of
        Inl p \<Rightarrow> Some (Inl p)
      | Inr assignment \<Rightarrow>
          (case getAntMoves rt assignment end of
             None \<Rightarrow> None
           | Some moves \<Rightarrow>
               (case collectMoves rt rest ants end of
                  None \<Rightarrow> None
                | Some (Inl p) \<Rightarrow> Some (Inl p)
                | Some (Inr others) \<Rightarrow> Some (Inr (moves # others)))))"

text \<open>\<^verbatim>\<open>strings.Count(solution, "\n")\<close> and the search for the first solution of least count.\<close>

definition countNewlines :: "string \<Rightarrow> nat" where
  "countNewlines s = length (filter (\<lambda>c. c = CHR 0x0A) s)"

definition pickShortest :: "string list \<Rightarrow> string" where
  "pickShortest antMovesPerPath =
     foldl (\<lambda>shortestSolution solution.
              if countNewlines solution < countNewlines shortestSolution then solution
              else shortestSolution)
       (hd antMovesPerPath) antMovesPerPath"

text \<open>
  \<open>args\<close> is \<^verbatim>\<open>os.Args\<close> and \<open>files\<close> tells what opening and scanning a file name gives.
  \<open>None\<close> is a run that never ends.  A panic ends the process with status 2 and a message
  of the run time on the error stream.
\<close>

definition main :: "runtime \<Rightarrow> string list \<Rightarrow> (string \<Rightarrow> string + scanned) \<Rightarrow> outcome option" where
  "main rt args files =
     (if length args < 2 then
        Some \<lparr> exitStatus = 0, stdout = [''Usage: go run . <filename.txt>''], stderr = [] \<rparr>
      else
        (case readInput rt (files (args ! 1)) of
           Inl f \<Rightarrow> Some (readInputExit f)
         | Inr graph \<Rightarrow>
             (let out1 = banner @ [''Number of ants: '' @ showInt (AntCount graph)];
                  paths = findShortestPaths rt graph (StartRoom graph)
              in if length paths = 0 then
                   Some \<lparr> exitStatus = 0, stdout = out1 @ [''ERROR: No valid path found''], stderr = [] \<rparr>
                 else
                   (let out2 = out1 @ [''All paths found:''] @ debugPathLines 0 paths;
                        solutionGroups = calculateSolutionGroups paths (StartRoom graph) (EndRoom graph)
                    in if length solutionGroups = 0 then
                         Some \<lparr> exitStatus = 0,
                                stdout = out2 @ [''ERROR: No compatible solution group found''],
                                stderr = [] \<rparr>
                       else
                         (case collectMoves rt solutionGroups (AntCount graph) (EndRoom graph) of
                            None \<Rightarrow> None
                          | Some (Inl p) \<Rightarrow>
                              Some \<lparr> exitStatus = 2, stdout = out2,
                                     stderr = [''panic: runtime error: index out of range''] \<rparr>
                          | Some (Inr antMovesPerPath) \<Rightarrow>
                              (let shortestSolution = pickShortest antMovesPerPath;
                                   steps = countNewlines shortestSolution
                               in Some \<lparr> exitStatus = 0,
                                         stdout = out2 @ [[], ''Shortest path'' @ [CHR 0x0A] @ shortestSolution,
                                                    ''Here you go!'',
                                                    ''Quickest path with '' @ showInt (int steps) @ '' turns''],
                                         stderr = [] \<rparr>))))))"

subsection \<open>The distributor as the specification words it\<close>

text \<open>
  The specification's rule for one ant: the chosen index has the smallest current cost, and
  among the indices of smallest cost it is the lowest.
\<close>

definition spec_choice :: "int list \<Rightarrow> nat \<Rightarrow> bool" where
  "spec_choice costs i \<longleftrightarrow>
     i < length costs \<and> (\<forall>j < length costs. costs ! i \<le> costs ! j) \<and> (\<forall>j < i. costs ! i < costs ! j)"

text \<open>
  The cost of path \<open>j\<close> once the ants whose indices are listed in \<open>chosen\<close> have been
  assigned: \<open>len(p\<^sub>j) - 1\<close> plus one for every ant on path \<open>j\<close>.
\<close>

definition spec_costs :: "string list list \<Rightarrow> nat list \<Rightarrow> int list" where
  "spec_costs paths chosen =
     map (\<lambda>j. int (length (paths ! j)) - 1 + int (count_list chosen j)) [0 ..< length paths]"

text \<open>The makespan \<open>max\<^sub>i (len(p\<^sub>i) - 1 + a\<^sub>i)\<close> of a split \<open>a\<close> of the ants over the paths.\<close>

definition makespan :: "string list list \<Rightarrow> nat list \<Rightarrow> int" where
  "makespan paths a = Max (set (map2 (\<lambda>p n. int (length p) - 1 + int n) paths a))"

definition ants_per_path :: "string list list \<Rightarrow> nat list \<Rightarrow> nat list" where
  "ants_per_path paths chosen = map (count_list chosen) [0 ..< length paths]"

subsection \<open>Auxiliary functions for the proofs about the distributor\<close>

text \<open>One pass of the scan as the source starts it: \<^verbatim>\<open>minLoad := loads[0]; minIndex := 0\<close>.\<close>

definition minIndexOf :: "nat list \<Rightarrow> nat" where
  "minIndexOf loads = snd (scanMinLoad loads 0 (hd loads) 0)"


fun choices :: "nat list \<Rightarrow> nat \<Rightarrow> nat list" where
  "choices loads 0 = []"
| "choices loads (Suc n) =
     minIndexOf loads # choices (loads[minIndexOf loads := Suc (loads ! minIndexOf loads)]) n"

fun assignFrom :: "string list list \<Rightarrow> int \<Rightarrow> nat list \<Rightarrow> (int \<times> string list) list \<Rightarrow> (int \<times> string list) list" where
  "assignFrom paths antIndex [] assignment = assignment"
| "assignFrom paths antIndex (i # is) assignment =
     assignFrom paths (antIndex + 1) is (AList.update antIndex (paths ! i) assignment)"

definition loadsAfter :: "nat list \<Rightarrow> nat list \<Rightarrow> nat list" where
  "loadsAfter loads chosen = fold (\<lambda>i l. l[i := Suc (l ! i)]) chosen loads"

definition slack :: "nat \<Rightarrow> nat list \<Rightarrow> nat" where
  "slack M loads = sum_list (map (\<lambda>l. M - l) loads)"

subsection \<open>Notions for the proofs about paths and groups\<close>

text \<open>
  \<open>pathFrom g pre q\<close>: the path \<open>q\<close> starts with \<open>pre\<close>, repeats no room, ends in the end
  room, and every room after \<open>pre\<close> is a neighbour in the connection table.
  \<open>pairwiseDisjoint start end grp\<close>: two paths at different places of \<open>grp\<close> share no
  room but \<open>start\<close> and \<open>end\<close>.
\<close>

definition pathFrom :: "Graph \<Rightarrow> string list \<Rightarrow> string list \<Rightarrow> bool" where
  "pathFrom g pre q \<longleftrightarrow>
     prefix pre q \<and> distinct q \<and> q \<noteq> [] \<and> last q = EndRoom g \<and> set (drop (length pre) q) \<subseteq> reachable g"

definition pairwiseDisjoint :: "string \<Rightarrow> string \<Rightarrow> string list list \<Rightarrow> bool" where
  "pairwiseDisjoint start end grp \<longleftrightarrow>
     (\<forall>a < length grp. \<forall>b < length grp. a \<noteq> b \<longrightarrow> set (grp ! a) \<inter> set (grp ! b) \<subseteq> {start, end})"

text \<open>The graph of the specification's scenario S3: two paths \<open>S, a, T\<close> and \<open>S, b, T\<close>.\<close>

definition diamond :: Graph where
  "diamond = \<lparr> Rooms = [], Connections =
      [(''S'', [''a'', ''b'']), (''a'', [''S'', ''T'']), (''T'', [''a'', ''b'']), (''b'', [''S'', ''T''])],
      AntCount = 4, StartRoom = ''S'', EndRoom = ''T'' \<rparr>"

subsection \<open>Kinds of input lines, and what a graph holds\<close>









definition roomNames :: "Graph \<Rightarrow> string set" where
  "roomNames g = fst ` set (Rooms g)"

definition linked :: "Graph \<Rightarrow> string \<Rightarrow> string \<Rightarrow> bool" where
  "linked g a b \<longleftrightarrow> b \<in> set (connectionsOf g a)"

definition grows :: "Graph \<Rightarrow> Graph \<Rightarrow> bool" where
  "grows g g' \<longleftrightarrow> roomNames g \<subseteq> roomNames g' \<and> (\<forall>a b. linked g a b \<longrightarrow> linked g' a b)"

subsection \<open>A second run time\<close>


text \<open>The file of the specification's scenario S1.\<close>

definition singleEdgeFile :: "string \<Rightarrow> string + scanned" where
  "singleEdgeFile name =
     Inr \<lparr> scannedLines = [''1'', ''##start'', ''A 0 0'', ''##end'', ''B 1 0'', ''A-B''],
           scanError = None \<rparr>"

text \<open>The graph \<^verbatim>\<open>readInput\<close> builds from that file.\<close>

definition singleEdgeGraph :: Graph where
  "singleEdgeGraph =
     \<lparr> Rooms = [(''A'', \<lparr> Name = ''A'', X = 0, Y = 0, IsStart = True, IsEnd = False \<rparr>),
                  (''B'', \<lparr> Name = ''B'', X = 1, Y = 0, IsStart = False, IsEnd = True \<rparr>)],
         Connections = [(''A'', [''B'']), (''B'', [''A''])],
         AntCount = 1, StartRoom = ''A'', EndRoom = ''B'' \<rparr>"

text \<open>A file that declares room \<open>A\<close> twice, and a file that cannot be opened.\<close>

definition duplicateRoomFile :: "string \<Rightarrow> string + scanned" where
  "duplicateRoomFile name =
     Inr \<lparr> scannedLines = [''1'', ''##start'', ''A 0 0'', ''##end'', ''A 1 0''], scanError = None \<rparr>"

definition missingFile :: "string \<Rightarrow> string + scanned" where
  "missingFile name = Inl (''open '' @ name @ '': no such file or directory'')"

subsection \<open>Notions for the proofs about the simulator\<close>

text \<open>
  A turn that moves no ant although some ant is not at the end of its path: the state it
  leaves is the state it found.
\<close>

definition stuck :: "string \<Rightarrow> (int \<times> string list) list \<Rightarrow> (int \<Rightarrow> nat) \<Rightarrow> (string \<Rightarrow> bool) \<Rightarrow> bool" where
  "stuck end assignments positions full \<longleftrightarrow>
     moveStrings (runTurn end assignments positions full) = [] \<and>
     finishedAnts (runTurn end assignments positions full) \<noteq> length assignments"

subsection \<open>Facts about the minimum scan\<close>

lemma scanMinLoad_inv:
  assumes "length pre = i" "ls = pre @ rest" "mi < length ls" "m = ls ! mi" "mi \<le> i"
    and "\<forall>j < i. m \<le> ls ! j" "\<forall>j < mi. m < ls ! j"
    and "scanMinLoad rest i m mi = (m', mi')"
  shows "mi' < length ls \<and> m' = ls ! mi' \<and> (\<forall>j < length ls. m' \<le> ls ! j) \<and> (\<forall>j < mi'. m' < ls ! j)"
  using assms
proof (induction rest arbitrary: pre i m mi)
  case Nil
  then show ?case by auto
next
  case (Cons load rest)
  have li: "ls ! i = load" using Cons.prems(1,2) by (simp add: nth_append)
  have ilt: "i < length ls" using Cons.prems(1,2) by simp
  show ?case
  proof (cases "load < m")
    case True
    have step: "scanMinLoad rest (Suc i) load i = (m', mi')"
      using Cons.prems(8) True by simp
    have a: "\<forall>j < Suc i. load \<le> ls ! j"
      using Cons.prems(6) True li by (auto simp: less_Suc_eq)
    have b: "\<forall>j < i. load < ls ! j"
      using Cons.prems(6) True by (meson le_less_trans not_le order.strict_trans2)
    show ?thesis
      by (rule Cons.IH[of "pre @ [load]" "Suc i" i load])
        (use Cons.prems(1,2) ilt li a b step in auto)
  next
    case False
    have step: "scanMinLoad rest (Suc i) m mi = (m', mi')"
      using Cons.prems(8) False by simp
    have a: "\<forall>j < Suc i. m \<le> ls ! j"
      using Cons.prems(6) False li by (auto simp: less_Suc_eq)
    show ?thesis
      by (rule Cons.IH[of "pre @ [load]" "Suc i" mi m])
        (use Cons.prems(1,2,3,4,5,7) a step in auto)
  qed
qed

lemma minIndexOf_first_min:
  assumes "loads \<noteq> []"
  shows "minIndexOf loads < length loads"
    and "\<forall>j < length loads. loads ! minIndexOf loads \<le> loads ! j"
    and "\<forall>j < minIndexOf loads. loads ! minIndexOf loads < loads ! j"
proof -
  obtain m' mi' where r: "scanMinLoad loads 0 (hd loads) 0 = (m', mi')"
    by (cases "scanMinLoad loads 0 (hd loads) 0")
  have "mi' < length loads \<and> m' = loads ! mi' \<and> (\<forall>j < length loads. m' \<le> loads ! j)
      \<and> (\<forall>j < mi'. m' < loads ! j)"
    by (rule scanMinLoad_inv[of "[]" 0 loads loads 0 "hd loads"])
      (use assms r in \<open>auto simp: hd_conv_nth\<close>)
  then show "minIndexOf loads < length loads"
    and "\<forall>j < length loads. loads ! minIndexOf loads \<le> loads ! j"
    and "\<forall>j < minIndexOf loads. loads ! minIndexOf loads < loads ! j"
    using r by (auto simp: minIndexOf_def)
qed
lemma length_choices [simp]: "length (choices loads n) = n"
  by (induction n arbitrary: loads) auto

lemma choices_bound: "loads \<noteq> [] \<Longrightarrow> i \<in> set (choices loads n) \<Longrightarrow> i < length loads"
proof (induction n arbitrary: loads)
  case 0 then show ?case by simp
next
  case (Suc n)
  let ?m = "minIndexOf loads"
  have m: "?m < length loads" using Suc.prems(1) by (rule minIndexOf_first_min(1))
  from Suc.prems(2) consider "i = ?m" | "i \<in> set (choices (loads[?m := Suc (loads ! ?m)]) n)"
    by auto
  then show ?case
  proof cases
    case 1 then show ?thesis using m by simp
  next
    case 2
    have "i < length (loads[?m := Suc (loads ! ?m)])"
      by (rule Suc.IH[OF _ 2]) (use Suc.prems(1) in auto)
    then show ?thesis by simp
  qed
qed

lemma scanMinLoad_snd_hd: "loads = load0 # rest \<Longrightarrow> scanMinLoad loads 0 load0 0 = (m, mi) \<Longrightarrow> mi = minIndexOf loads"
  by (simp add: minIndexOf_def)

lemma distributeLoop_choices:
  "loads \<noteq> [] \<Longrightarrow> length loads = length paths \<Longrightarrow>
   distributeLoop paths ants antIndex loads assignment =
     Inr (assignFrom paths antIndex (choices loads (nat (ants + 1 - antIndex))) assignment)"
proof (induction paths ants antIndex loads assignment rule: distributeLoop.induct)
  case (1 paths ants antIndex loads assignment)
  show ?case
  proof (cases "antIndex \<le> ants")
    case False
    then have "nat (ants + 1 - antIndex) = 0" by simp
    then show ?thesis using False by (subst distributeLoop.simps) simp
  next
    case True
    obtain load0 rest where ls: "loads = load0 # rest" using "1.prems"(1) by (cases loads) auto
    obtain m mi where sc: "scanMinLoad loads 0 load0 0 = (m, mi)"
      by (cases "scanMinLoad loads 0 load0 0")
    have mi: "mi = minIndexOf loads" using ls sc by (rule scanMinLoad_snd_hd)
    have lt: "mi < length paths" using minIndexOf_first_min(1)[OF "1.prems"(1)] mi "1.prems"(2) by simp
    have n: "nat (ants + 1 - antIndex) = Suc (nat (ants + 1 - (antIndex + 1)))" using True by simp
    have ih: "distributeLoop paths ants (antIndex + 1) (loads[mi := Suc (loads ! mi)])
        (AList.update antIndex (paths ! mi) assignment) =
        Inr (assignFrom paths (antIndex + 1)
          (choices (loads[mi := Suc (loads ! mi)]) (nat (ants + 1 - (antIndex + 1))))
          (AList.update antIndex (paths ! mi) assignment))"
      by (rule "1.IH"[OF True ls sc[symmetric] lt]) (use "1.prems" in auto)
    have "distributeLoop paths ants antIndex loads assignment =
      distributeLoop paths ants (antIndex + 1) (loads[mi := Suc (loads ! mi)])
        (AList.update antIndex (paths ! mi) assignment)"
      using True ls sc lt by (subst distributeLoop.simps) simp
    then show ?thesis unfolding ih n using mi by simp
  qed
qed

lemma assignFrom_keys:
  "fst ` set (assignFrom paths antIndex cs a) = fst ` set a \<union> {antIndex ..< antIndex + int (length cs)}"
proof (induction cs arbitrary: antIndex a)
  case Nil then show ?case by simp
next
  case (Cons i cs)
  show ?case by (simp add: Cons.IH dom_update) auto
qed

lemma assignFrom_distinct:
  "distinct (map fst a) \<Longrightarrow> distinct (map fst (assignFrom paths antIndex cs a))"
  by (induction cs arbitrary: antIndex a) (auto simp: distinct_update)

lemma assignFrom_map_of:
  "map_of (assignFrom paths antIndex cs a) n =
     (if antIndex \<le> n \<and> n < antIndex + int (length cs)
      then Some (paths ! (cs ! nat (n - antIndex))) else map_of a n)"
proof (induction cs arbitrary: antIndex a n)
  case Nil then show ?case by auto
next
  case (Cons i cs)
  show ?case
  proof (cases "n = antIndex")
    case True
    then show ?thesis by (simp add: Cons.IH update_conv')
  next
    case False
    have "antIndex + 1 \<le> n \<Longrightarrow> nat (n - antIndex) = Suc (nat (n - (antIndex + 1)))" by simp
    then show ?thesis using False by (auto simp add: Cons.IH update_conv')
  qed
qed

lemma loadsAfter_Nil [simp]: "loadsAfter loads [] = loads"
  by (simp add: loadsAfter_def)

lemma loadsAfter_Cons [simp]: "loadsAfter loads (i # cs) = loadsAfter (loads[i := Suc (loads ! i)]) cs"
  by (simp add: loadsAfter_def)

lemma length_loadsAfter [simp]: "length (loadsAfter loads cs) = length loads"
  by (induction cs arbitrary: loads) auto

lemma loadsAfter_nth:
  "j < length loads \<Longrightarrow> loadsAfter loads cs ! j = loads ! j + count_list cs j"
  by (induction cs arbitrary: loads) (auto simp: nth_list_update)

lemma loadsAfter_snoc: "loadsAfter loads (cs @ [i]) = (loadsAfter loads cs)[i := Suc (loadsAfter loads cs ! i)]"
  by (simp add: loadsAfter_def)

lemma choices_Suc_snoc:
  "choices loads (Suc n) = choices loads n @ [minIndexOf (loadsAfter loads (choices loads n))]"
proof (induction n arbitrary: loads)
  case 0 then show ?case by simp
next
  case (Suc n)
  let ?m = "minIndexOf loads"
  let ?l' = "loads[?m := Suc (loads ! ?m)]"
  have "choices loads (Suc (Suc n)) = ?m # choices ?l' (Suc n)"
    by (simp only: choices.simps)
  also have "choices ?l' (Suc n) = choices ?l' n @ [minIndexOf (loadsAfter ?l' (choices ?l' n))]"
    by (rule Suc.IH)
  also have "?m # (choices ?l' n @ [minIndexOf (loadsAfter ?l' (choices ?l' n))]) =
      choices loads (Suc n) @ [minIndexOf (loadsAfter loads (choices loads (Suc n)))]"
    by simp
  finally show ?case .
qed

lemma take_choices: "m \<le> n \<Longrightarrow> take m (choices loads n) = choices loads m"
proof (induction n)
  case 0 then show ?case by simp
next
  case (Suc n)
  show ?case
  proof (cases "m = Suc n")
    case True then show ?thesis by simp
  next
    case False
    then have "m \<le> n" using Suc.prems by simp
    then show ?thesis using Suc.IH by (simp add: choices_Suc_snoc del: choices.simps)
  qed
qed

lemma choices_nth:
  assumes "m < n"
  shows "choices loads n ! m = minIndexOf (loadsAfter loads (take m (choices loads n)))"
proof -
  have "choices loads n ! m = take (Suc m) (choices loads n) ! m" by simp
  also have "take (Suc m) (choices loads n) = choices loads (Suc m)"
    using assms by (intro take_choices) simp
  also have "\<dots> ! m = minIndexOf (loadsAfter loads (choices loads m))"
    by (simp add: choices_Suc_snoc nth_append del: choices.simps)
  also have "choices loads m = take m (choices loads n)"
    using assms by (simp add: take_choices)
  finally show ?thesis .
qed

lemma slack_update:
  assumes "i < length loads" "loads ! i < M"
  shows "Suc (slack M (loads[i := Suc (loads ! i)])) = slack M loads"
proof -
  let ?f = "\<lambda>l. M - l"
  have "map ?f (loads[i := Suc (loads ! i)]) = (map ?f loads)[i := M - Suc (loads ! i)]"
    by (simp add: map_update)
  then have "slack M (loads[i := Suc (loads ! i)]) = sum_list (map ?f loads) + (M - Suc (loads ! i)) - (map ?f loads) ! i"
    using assms(1) by (simp add: slack_def sum_list_update)
  moreover have "(map ?f loads) ! i = M - loads ! i" using assms(1) by simp
  moreover have "M - loads ! i \<le> sum_list (map ?f loads)"
  proof -
    have "M - loads ! i \<in> set (map ?f loads)" using assms(1) by auto
    then show ?thesis by (simp add: member_le_sum_list)
  qed
  ultimately show ?thesis using assms(2) by (simp add: slack_def)
qed

lemma slack_pos_ex: "0 < slack M loads \<Longrightarrow> \<exists>j < length loads. loads ! j < M"
proof (induction loads)
  case Nil then show ?case by (simp add: slack_def)
next
  case (Cons l loads)
  show ?case
  proof (cases "l < M")
    case True then show ?thesis by auto
  next
    case False
    then have "0 < slack M loads" using Cons.prems by (simp add: slack_def)
    then obtain j where "j < length loads" "loads ! j < M" using Cons.IH by auto
    then show ?thesis by (intro exI[of _ "Suc j"]) simp
  qed
qed

lemma greedy_stays_below:
  "loads \<noteq> [] \<Longrightarrow> n \<le> slack M loads \<Longrightarrow> \<forall>j < length loads. loads ! j \<le> M \<Longrightarrow>
   j < length loads \<Longrightarrow> loadsAfter loads (choices loads n) ! j \<le> M"
proof (induction n arbitrary: loads)
  case 0 then show ?case by simp
next
  case (Suc n)
  let ?i = "minIndexOf loads"
  let ?loads' = "loads[?i := Suc (loads ! ?i)]"
  have i: "?i < length loads" using Suc.prems(1) by (rule minIndexOf_first_min(1))
  obtain k where k: "k < length loads" "loads ! k < M"
    using slack_pos_ex[of M loads] Suc.prems(2) by auto
  have "loads ! ?i \<le> loads ! k" using minIndexOf_first_min(2)[OF Suc.prems(1)] k(1) by simp
  then have lt: "loads ! ?i < M" using k(2) by simp
  have r: "n \<le> slack M ?loads'" using slack_update[OF i lt] Suc.prems(2) by simp
  have b: "\<forall>j < length ?loads'. ?loads' ! j \<le> M"
  proof (intro allI impI)
    fix j assume "j < length ?loads'"
    then show "?loads' ! j \<le> M" using Suc.prems(3) lt by (cases "j = ?i") auto
  qed
  have "loadsAfter ?loads' (choices ?loads' n) ! j \<le> M"
    by (rule Suc.IH[OF _ r b]) (use Suc.prems in auto)
  then show ?case by simp
qed

lemma split_fits_slack:
  "length b = length loads \<Longrightarrow> \<forall>j < length loads. loads ! j + b ! j \<le> M \<Longrightarrow> sum_list b \<le> slack M loads"
proof (induction b loads rule: list_induct2)
  case Nil then show ?case by (simp add: slack_def)
next
  case (Cons x xs y ys)
  have "y + x \<le> M" using Cons.prems by (auto dest: spec[of _ 0])
  moreover have "sum_list xs \<le> slack M ys"
    by (rule Cons.IH) (use Cons.prems in \<open>auto dest: spec[of _ "Suc j" for j]\<close>)
  ultimately show ?case by (simp add: slack_def)
qed

lemma makespan_le_iff:
  assumes "paths \<noteq> []" "length a = length paths"
  shows "makespan paths a \<le> x \<longleftrightarrow> (\<forall>j < length paths. int (length (paths ! j)) - 1 + int (a ! j) \<le> x)"
proof -
  let ?S = "set (map2 (\<lambda>p n. int (length p) - 1 + int n) paths a)"
  have S: "?S = {int (length (paths ! j)) - 1 + int (a ! j) | j. j < length paths}"
    using assms(2) by (auto simp: set_zip)
  have ne: "?S \<noteq> {}" using assms by (cases paths; cases a) auto
  have "makespan paths a \<le> x \<longleftrightarrow> (\<forall>y \<in> ?S. y \<le> x)"
    unfolding makespan_def using ne by (intro Max_le_iff) auto
  also have "\<dots> \<longleftrightarrow> (\<forall>j < length paths. int (length (paths ! j)) - 1 + int (a ! j) \<le> x)"
    unfolding S by auto
  finally show ?thesis .
qed

lemma sum_indicator_upt:
  "sum_list (map (\<lambda>j. if j = c then 1 else 0) [0 ..< k]) = (if c < k then 1 else (0::nat))"
  by (induction k) auto

lemma sum_count_list_upt:
  "\<forall>i \<in> set cs. i < k \<Longrightarrow> sum_list (map (count_list cs) [0 ..< k]) = length cs"
proof (induction cs)
  case Nil then show ?case by (induction k) auto
next
  case (Cons c cs)
  have c: "c < k" using Cons.prems by simp
  have "sum_list (map (count_list (c # cs)) [0 ..< k]) =
      sum_list (map (\<lambda>j. count_list cs j + (if j = c then 1 else 0)) [0 ..< k])"
    by (intro arg_cong[of _ _ sum_list] map_cong) auto
  also have "\<dots> = sum_list (map (count_list cs) [0 ..< k]) + sum_list (map (\<lambda>j. if j = c then 1 else 0) [0 ..< k])"
    by (simp add: sum_list_addf)
  also have "sum_list (map (\<lambda>j. if j = c then 1 else 0) [0 ..< k]) = (1::nat)"
    using c by (simp add: sum_indicator_upt)
  also have "sum_list (map (count_list cs) [0 ..< k]) = length cs"
    using Cons by simp
  finally show ?case by simp
qed

subsection \<open>Facts about one turn\<close>

lemma moveStrings_moveAnt_mono: "length (moveStrings st) \<le> length (moveStrings (moveAnt end st a))"
  by (simp add: moveAnt_def Let_def)

lemma moveStrings_foldl_mono:
  "length (moveStrings st) \<le> length (moveStrings (foldl (moveAnt end) st as))"
proof (induction as arbitrary: st)
  case Nil then show ?case by simp
next
  case (Cons a as)
  show ?case using Cons.IH[of "moveAnt end st a"] moveStrings_moveAnt_mono[of st "end" a] by simp
qed

lemma moveAnt_no_move:
  "length (moveStrings (moveAnt end st a)) = length (moveStrings st) \<Longrightarrow>
   antPositions (moveAnt end st a) = antPositions st \<and> roomFull (moveAnt end st a) = roomFull st
   \<and> tunnelsUsed (moveAnt end st a) = tunnelsUsed st \<and> moveStrings (moveAnt end st a) = moveStrings st"
  by (auto simp: moveAnt_def Let_def split: if_splits)

lemma foldl_no_move:
  "length (moveStrings (foldl (moveAnt end) st as)) = length (moveStrings st) \<Longrightarrow>
   antPositions (foldl (moveAnt end) st as) = antPositions st \<and>
   roomFull (foldl (moveAnt end) st as) = roomFull st"
proof (induction as arbitrary: st)
  case Nil then show ?case by simp
next
  case (Cons a as)
  let ?st' = "moveAnt end st a"
  have 1: "length (moveStrings st) \<le> length (moveStrings ?st')" by (rule moveStrings_moveAnt_mono)
  have 2: "length (moveStrings ?st') \<le> length (moveStrings (foldl (moveAnt end) ?st' as))"
    by (rule moveStrings_foldl_mono)
  have e: "length (moveStrings ?st') = length (moveStrings st)"
    and e': "length (moveStrings (foldl (moveAnt end) ?st' as)) = length (moveStrings ?st')"
    using 1 2 Cons.prems by auto
  show ?case using Cons.IH[OF e'] moveAnt_no_move[OF e] by simp
qed

lemma runTurn_no_move:
  assumes "moveStrings (runTurn end as positions full) = []"
  shows "antPositions (runTurn end as positions full) = positions"
    and "roomFull (runTurn end as positions full) = full"
  using foldl_no_move[of "end" "\<lparr>antPositions = positions, roomFull = full, tunnelsUsed = (\<lambda>_. []),
         moveStrings = [], finishedAnts = 0\<rparr>" as] assms
  by (simp_all add: runTurn_def)

lemma turnLoop_stuck_None:
  assumes "stuck end assignments positions full"
  shows "turnLoop end assignments positions full antMoves = None"
proof (rule ccontr)
  assume "turnLoop end assignments positions full antMoves \<noteq> None"
  then obtain y where y: "turnLoop end assignments positions full antMoves = Some y" by auto
  have "\<not> stuck end assignments positions full"
  proof (rule turnLoop.raw_induct[where P = "\<lambda>e as p f m y. \<not> stuck e as p f", OF _ y])
    fix tl :: "string \<Rightarrow> (int \<times> string list) list \<Rightarrow> (int \<Rightarrow> nat) \<Rightarrow> (string \<Rightarrow> bool)
      \<Rightarrow> (int \<times> string) list list \<Rightarrow> (int \<times> string) list list option"
    fix e as p f m z
    assume IH: "\<And>e' as' p' f' m' y'. tl e' as' p' f' m' = Some y' \<Longrightarrow> \<not> stuck e' as' p' f'"
    assume eq: "(let st = runTurn e as p f;
          antMoves' = if moveStrings st \<noteq> [] then m @ [moveStrings st] else m
      in if finishedAnts st = length as then Some antMoves'
         else tl e as (antPositions st) (roomFull st) antMoves') = Some z"
    show "\<not> stuck e as p f"
    proof
      assume s: "stuck e as p f"
      have "tl e as p f m = Some z"
        using eq s runTurn_no_move[of e as p f] by (simp add: stuck_def Let_def)
      then have "\<not> stuck e as p f" by (rule IH)
      then show False using s by simp
    qed
  qed
  then show False using assms by simp
qed

subsection \<open>Facts about the admissible run times\<close>

lemma insertLess_mset: "mset (insertLess lt x ys) = add_mset x (mset ys)"
  by (induction ys) auto

lemma insertLess_set: "set (insertLess lt x ys) = insert x (set ys)"
  by (induction ys) auto

lemma insertLess_sorted:
  fixes f :: "'a \<Rightarrow> 'b::linorder"
  shows "sorted_wrt (\<lambda>a b. f b \<le> f a) ys \<Longrightarrow>
    sorted_wrt (\<lambda>a b. f b \<le> f a) (insertLess (\<lambda>a b. f a < f b) x ys)"
  by (induction ys) (auto simp: insertLess_set)

lemma foldl_insertLess:
  fixes f :: "'a \<Rightarrow> 'b::linorder"
  shows "mset (foldl (\<lambda>done x. insertLess (\<lambda>a b. f a < f b) x done) acc xs) = mset acc + mset xs \<and>
    (sorted_wrt (\<lambda>a b. f b \<le> f a) acc \<longrightarrow>
       sorted_wrt (\<lambda>a b. f b \<le> f a) (foldl (\<lambda>done x. insertLess (\<lambda>a b. f a < f b) x done) acc xs))"
  by (induction xs arbitrary: acc) (auto simp: insertLess_mset insertLess_sorted)

lemma insertionSort_sorts:
  fixes f :: "'a \<Rightarrow> 'b::linorder"
  shows "mset (insertionSort (\<lambda>a b. f a < f b) xs) = mset xs"
    and "sorted_wrt (\<lambda>a b. \<not> f b < f a) (insertionSort (\<lambda>a b. f a < f b) xs)"
proof -
  show "mset (insertionSort (\<lambda>a b. f a < f b) xs) = mset xs"
    using foldl_insertLess[of f "[]" xs] by (simp add: insertionSort_def)
  have "sorted_wrt (\<lambda>a b. f b \<le> f a) (foldl (\<lambda>done x. insertLess (\<lambda>a b. f a < f b) x done) [] xs)"
    using foldl_insertLess[of f "[]" xs] by simp
  then have "sorted_wrt (\<lambda>a b. f a \<le> f b) (insertionSort (\<lambda>a b. f a < f b) xs)"
    by (simp add: insertionSort_def sorted_wrt_rev)
  then show "sorted_wrt (\<lambda>a b. \<not> f b < f a) (insertionSort (\<lambda>a b. f a < f b) xs)"
    by (simp add: not_less)
qed

lemma runtime_ok_smallRuntime: "runtime_ok smallRuntime"
  unfolding runtime_ok_def smallRuntime_def
  using insertionSort_sorts[where f = "length :: string list \<Rightarrow> nat"]
    insertionSort_sorts[where f = "fst :: int \<times> string list \<Rightarrow> int"]
  by simp

subsection \<open>Facts about the paths found and the groups built\<close>

lemma pathFrom_shorter:
  assumes "pathFrom g (pre @ [n]) q" "n \<in> reachable g"
  shows "pathFrom g pre q"
proof -
  from assms(1) obtain suf where q: "q = (pre @ [n]) @ suf"
    by (auto simp: pathFrom_def prefix_def)
  have "drop (length pre) q = n # drop (Suc (length pre)) q" using q by simp
  then show ?thesis using assms q by (auto simp: pathFrom_def)
qed

lemma findAllPaths_paths:
  "findAllPaths g cur v path all = (v', all') \<Longrightarrow> \<forall>r \<in> set path. v r \<Longrightarrow> \<not> v cur \<Longrightarrow>
     distinct path \<Longrightarrow> EndRoom g \<notin> set path \<Longrightarrow>
     v' = v \<and> (\<exists>new. all' = all @ new \<and> (\<forall>q \<in> set new. pathFrom g (path @ [cur]) q))"
  "visitNeighbors g ns v path all = (v', all') \<Longrightarrow> \<forall>r \<in> set path. v r \<Longrightarrow>
     distinct path \<Longrightarrow> EndRoom g \<notin> set path \<Longrightarrow> set ns \<subseteq> reachable g \<Longrightarrow>
     v' = v \<and> (\<exists>new. all' = all @ new \<and> (\<forall>q \<in> set new. pathFrom g path q))"
proof (induction g cur v path all and g ns v path all arbitrary: v' all' and v' all'
    rule: findAllPaths_visitNeighbors.induct)
  case (1 graph currentRoom visited path allPaths)
  have notin: "currentRoom \<notin> set path" using "1.prems"(2,3) by auto
  show ?case
  proof (cases "currentRoom = EndRoom graph")
    case True
    have "pathFrom graph (path @ [currentRoom]) (path @ [currentRoom])"
      using True "1.prems"(4) notin by (simp add: pathFrom_def)
    moreover have "v' = visited" "all' = allPaths @ [path @ [currentRoom]]"
      using "1.prems"(1,3) True by (auto simp: fun_upd_idem)
    ultimately show ?thesis by simp
  next
    case False
    obtain v1 a1 where r: "visitNeighbors graph (connectionsOf graph currentRoom)
        (visited(currentRoom := True)) (path @ [currentRoom]) allPaths = (v1, a1)"
      by (cases "visitNeighbors graph (connectionsOf graph currentRoom)
        (visited(currentRoom := True)) (path @ [currentRoom]) allPaths")
    have ih: "v1 = visited(currentRoom := True) \<and>
        (\<exists>new. a1 = allPaths @ new \<and> (\<forall>q \<in> set new. pathFrom graph (path @ [currentRoom]) q))"
      by (rule "1.IH"[OF False r])
        (use "1.prems" notin False connectionsOf_reachable[of graph currentRoom] in auto)
    have "v' = v1(currentRoom := False)" "all' = a1" using "1.prems"(1) False r by auto
    then show ?thesis using ih "1.prems"(3) by (auto simp: fun_upd_idem)
  qed
next
  case (2 graph visited path allPaths)
  then show ?case by simp
next
  case (3 graph neighbor rest visited path allPaths)
  show ?case
  proof (cases "visited neighbor")
    case True
    have r: "visitNeighbors graph rest visited path allPaths = (v', all')"
      using "3.prems"(1) True by simp
    show ?thesis by (rule "3.IH"(3)[OF _ r]) (use True "3.prems" in auto)
  next
    case False
    obtain v1 a1 where r: "findAllPaths graph neighbor visited path allPaths = (v1, a1)"
      by (cases "findAllPaths graph neighbor visited path allPaths")
    have ih1: "v1 = visited \<and>
        (\<exists>new. a1 = allPaths @ new \<and> (\<forall>q \<in> set new. pathFrom graph (path @ [neighbor]) q))"
      by (rule "3.IH"(1)[OF False r]) (use False "3.prems" in auto)
    then obtain new1 where n1: "v1 = visited" "a1 = allPaths @ new1"
      "\<forall>q \<in> set new1. pathFrom graph (path @ [neighbor]) q" by auto
    have n1': "\<forall>q \<in> set new1. pathFrom graph path q"
      using n1(3) "3.prems"(5) by (auto intro: pathFrom_shorter)
    have r2: "visitNeighbors graph rest v1 path a1 = (v', all')"
      using "3.prems"(1) False r by simp
    have ih2: "v' = v1 \<and> (\<exists>new. all' = a1 @ new \<and> (\<forall>q \<in> set new. pathFrom graph path q))"
      by (rule "3.IH"(2)[OF False r[symmetric] r2]) (use n1(1) "3.prems" in auto)
    then obtain new2 where n2: "v' = v1" "all' = a1 @ new2" "\<forall>q \<in> set new2. pathFrom graph path q"
      by auto
    have "all' = allPaths @ (new1 @ new2)" using n1(2) n2(2) by simp
    moreover have "\<forall>q \<in> set (new1 @ new2). pathFrom graph path q" using n1' n2(3) by auto
    ultimately show ?thesis using n1(1) n2(1) by blast
  qed
qed

lemma findShortestPaths_paths:
  assumes "mset (sortPaths rt (snd (findAllPaths g start (\<lambda>_. False) [] []))) =
      mset (snd (findAllPaths g start (\<lambda>_. False) [] []))"
    and "q \<in> set (findShortestPaths rt g start)"
  shows "pathFrom g [start] q"
proof -
  obtain v' all' where r: "findAllPaths g start (\<lambda>_. False) [] [] = (v', all')"
    by (cases "findAllPaths g start (\<lambda>_. False) [] []")
  have "v' = (\<lambda>_. False) \<and> (\<exists>new. all' = [] @ new \<and> (\<forall>q \<in> set new. pathFrom g ([] @ [start]) q))"
    by (rule findAllPaths_paths(1)[OF r]) auto
  then have a: "\<forall>q \<in> set all'. pathFrom g [start] q" by auto
  have "set (findShortestPaths rt g start) = set all'"
    using assms(1) r unfolding findShortestPaths_def by (metis set_mset_mset snd_conv)
  then show ?thesis using a assms(2) by auto
qed

lemma solutionsCompatible_iff:
  "solutionsCompatible path1 path2 start end \<longleftrightarrow> set path1 \<inter> set path2 \<subseteq> {start, end}"
  by (induction path1) (auto simp: list_ex_iff)

lemma solutionCompatibleWithGroup_iff:
  "solutionCompatibleWithGroup candidate grp start end \<longleftrightarrow>
     (\<forall>p \<in> set grp. set p \<inter> set candidate \<subseteq> {start, end})"
  by (induction grp) (auto simp: solutionsCompatible_iff)

lemma pairwiseDisjoint_snoc:
  assumes "pairwiseDisjoint start end grp" "\<forall>p \<in> set grp. set p \<inter> set c \<subseteq> {start, end}"
  shows "pairwiseDisjoint start end (grp @ [c])"
  unfolding pairwiseDisjoint_def
proof (intro allI impI)
  fix a b assume a: "a < length (grp @ [c])" and b: "b < length (grp @ [c])" and ne: "a \<noteq> b"
  consider "a < length grp" "b < length grp" | "a < length grp" "b = length grp"
    | "a = length grp" "b < length grp"
    using a b ne by (cases "a < length grp"; cases "b < length grp") auto
  then show "set ((grp @ [c]) ! a) \<inter> set ((grp @ [c]) ! b) \<subseteq> {start, end}"
  proof cases
    case 1
    then show ?thesis using assms(1) ne by (simp add: pairwiseDisjoint_def nth_append)
  next
    case 2
    then have "grp ! a \<in> set grp" by simp
    then show ?thesis using assms(2) 2 by (simp add: nth_append)
  next
    case 3
    then have "grp ! b \<in> set grp" by simp
    then have "set (grp ! b) \<inter> set c \<subseteq> {start, end}" using assms(2) by blast
    then show ?thesis using 3 by (auto simp add: nth_append)
  qed
qed

lemma extendGroup_props:
  assumes "pairwiseDisjoint start end grp" "set grp \<subseteq> S" "set rest \<subseteq> S"
  shows "pairwiseDisjoint start end (extendGroup i j rest grp start end) \<and>
         set (extendGroup i j rest grp start end) \<subseteq> S"
  using assms
proof (induction rest arbitrary: j grp)
  case Nil
  then show ?case by simp
next
  case (Cons path2 rest)
  show ?case
  proof (cases "i \<noteq> j \<and> solutionCompatibleWithGroup path2 grp start end")
    case True
    have "pairwiseDisjoint start end (grp @ [path2])"
      by (rule pairwiseDisjoint_snoc) (use True Cons.prems in \<open>auto simp: solutionCompatibleWithGroup_iff\<close>)
    then have "pairwiseDisjoint start end (extendGroup i (Suc j) rest (grp @ [path2]) start end) \<and>
         set (extendGroup i (Suc j) rest (grp @ [path2]) start end) \<subseteq> S"
      by (rule Cons.IH) (use Cons.prems in auto)
    then show ?thesis using True by simp
  next
    case False
    have "pairwiseDisjoint start end (extendGroup i (Suc j) rest grp start end) \<and>
         set (extendGroup i (Suc j) rest grp start end) \<subseteq> S"
      by (rule Cons.IH) (use Cons.prems in auto)
    then show ?thesis using False by auto
  qed
qed

lemma groupsFrom_props:
  assumes "grp \<in> set (groupsFrom i rest paths start end)" "set rest \<subseteq> set paths"
  shows "pairwiseDisjoint start end grp \<and> set grp \<subseteq> set paths"
  using assms
proof (induction rest arbitrary: i)
  case Nil
  then show ?case by simp
next
  case (Cons path1 rest)
  from Cons.prems(1) consider "grp = extendGroup i 0 paths [path1] start end"
    | "grp \<in> set (groupsFrom (Suc i) rest paths start end)" by auto
  then show ?case
  proof cases
    case 1
    have "pairwiseDisjoint start end [path1]" by (simp add: pairwiseDisjoint_def)
    then show ?thesis unfolding 1 by (rule extendGroup_props) (use Cons.prems in auto)
  next
    case 2
    then show ?thesis by (rule Cons.IH) (use Cons.prems in auto)
  qed
qed

lemma extendGroup_nonempty: "grp \<noteq> [] \<Longrightarrow> extendGroup i j rest grp start end \<noteq> []"
  by (induction rest arbitrary: j grp) auto

lemma groupsFrom_nonempty: "grp \<in> set (groupsFrom i rest paths start end) \<Longrightarrow> grp \<noteq> []"
proof (induction rest arbitrary: i)
  case Nil
  then show ?case by simp
next
  case (Cons path1 rest)
  have "extendGroup i 0 paths [path1] start end \<noteq> []" by (rule extendGroup_nonempty) simp
  then show ?case using Cons by auto
qed

lemma calculateSolutionGroups_props:
  assumes "grp \<in> set (calculateSolutionGroups paths start end)"
  shows "pairwiseDisjoint start end grp" and "set grp \<subseteq> set paths" and "grp \<noteq> []"
proof -
  have "pairwiseDisjoint start end grp \<and> set grp \<subseteq> set paths \<and> grp \<noteq> []"
  proof (cases "length paths \<le> 1")
    case True
    then have g: "grp = paths" "length paths = 1"
      using assms by (auto simp: calculateSolutionGroups_def split: if_splits)
    then show ?thesis by (auto simp: pairwiseDisjoint_def)
  next
    case False
    then have "grp \<in> set (groupsFrom 0 paths paths start end)"
      using assms by (simp add: calculateSolutionGroups_def)
    then show ?thesis using groupsFrom_props[of grp 0 paths paths start "end"] groupsFrom_nonempty by auto
  qed
  then show "pairwiseDisjoint start end grp" and "set grp \<subseteq> set paths" and "grp \<noteq> []" by auto
qed

lemma diamond_paths: "findShortestPaths smallRuntime diamond ''S'' = [[''S'', ''a'', ''T''], [''S'', ''b'', ''T'']]"
  by (simp add: findShortestPaths_def diamond_def connectionsOf_def smallRuntime_def insertionSort_def)

lemma diamond_groups: "calculateSolutionGroups (findShortestPaths smallRuntime diamond ''S'') ''S'' ''T''
   = [[[''S'', ''a'', ''T''], [''S'', ''b'', ''T'']], [[''S'', ''b'', ''T''], [''S'', ''a'', ''T'']]]"
  by (simp add: diamond_paths calculateSolutionGroups_def)

subsection \<open>Facts about the order of map entries\<close>











subsection \<open>Facts about \<^verbatim>\<open>readInput\<close>\<close>

lemma grows_refl [simp]: "grows g g"
  by (simp add: grows_def)
























section \<open>The claims about the ant distributor\<close>

text \<open>
  Claim C10.  \<^verbatim>\<open>distributeAnts\<close> needs a non-empty path list: with no path, the first
  ant (\<open>N \<ge> 1\<close>) makes it read \<^verbatim>\<open>loads[0]\<close> of an empty slice, which panics.  With at
  least one path and \<open>N \<ge> 1\<close> it returns a map whose keys are exactly the ant ids
  \<open>1, \<dots>, N\<close>, each bound to one of the given paths.
\<close>

theorem distributeAnts_domain:
  "1 \<le> ants \<Longrightarrow>
     distributeAnts [] ants = Inl IndexOutOfRange \<and>
     (paths \<noteq> [] \<longrightarrow>
        (\<exists>a. distributeAnts paths ants = Inr a \<and> distinct (map fst a) \<and> fst ` set a = {1 .. ants} \<and>
           (\<forall>n \<in> {1 .. ants}. \<exists>p \<in> set paths. map_of a n = Some p)))"
proof (intro conjI impI)
  assume ants: "1 \<le> ants"
  then show "distributeAnts [] ants = Inl IndexOutOfRange"
    by (simp add: distributeAnts_def)
next
  assume ants: "1 \<le> ants" and ne: "paths \<noteq> []"
  let ?cs = "choices (map length paths) (nat (ants + 1 - 1))"
  let ?a = "assignFrom paths 1 ?cs []"
  have r: "distributeAnts paths ants = Inr ?a"
    unfolding distributeAnts_def by (rule distributeLoop_choices) (use ne in auto)
  have len: "int (length ?cs) = ants" using ants by simp
  have keys: "fst ` set ?a = {1 .. ants}"
    unfolding assignFrom_keys len by auto
  have d: "distinct (map fst ?a)" by (rule assignFrom_distinct) simp
  have v: "\<exists>p \<in> set paths. map_of ?a n = Some p" if "n \<in> {1 .. ants}" for n
  proof -
    have "nat (n - 1) < length ?cs" using that len by auto
    then have "?cs ! nat (n - 1) \<in> set ?cs" by (rule nth_mem)
    then have "?cs ! nat (n - 1) < length (map length paths)"
      by (intro choices_bound) (use ne in auto)
    then have "paths ! (?cs ! nat (n - 1)) \<in> set paths" by simp
    moreover have "map_of ?a n = Some (paths ! (?cs ! nat (n - 1)))"
      unfolding assignFrom_map_of using that len by auto
    ultimately show ?thesis by blast
  qed
  show "\<exists>a. distributeAnts paths ants = Inr a \<and> distinct (map fst a) \<and> fst ` set a = {1 .. ants} \<and>
           (\<forall>n \<in> {1 .. ants}. \<exists>p \<in> set paths. map_of a n = Some p)"
    using r keys d v by blast
qed

theorem distributeAnts_domain_witness:
  "(1::int) \<le> 2 \<and> [[''S'', ''a'', ''T''], [''S'', ''T'']] \<noteq> [] \<and>
   distributeAnts [] 2 = Inl IndexOutOfRange \<and>
   (\<exists>a. distributeAnts [[''S'', ''a'', ''T''], [''S'', ''T'']] 2 = Inr a \<and>
        distinct (map fst a) \<and> fst ` set a = {1 .. 2} \<and>
        (\<forall>n \<in> {1 .. 2}. \<exists>p \<in> set [[''S'', ''a'', ''T''], [''S'', ''T'']]. map_of a n = Some p))"
  using distributeAnts_domain[of 2 "[[''S'', ''a'', ''T''], [''S'', ''T'']]"] by simp

text \<open>
  Claim C4.  For a non-empty path list and \<open>N \<ge> 1\<close> ants, \<^verbatim>\<open>distributeAnts\<close> gives ant
  \<open>n + 1\<close> the path of index \<open>chosen ! n\<close>, where every index is the specification's choice
  (smallest current cost \<open>len(p\<^sub>i) - 1\<close> plus the ants already on the path, lowest index on
  a tie); the resulting split of the ants has the least makespan
  \<open>max\<^sub>i (len(p\<^sub>i) - 1 + a\<^sub>i)\<close> among all splits of \<open>N\<close> ants over the paths.
\<close>

theorem distributeAnts_greedy_optimal:
  assumes "paths \<noteq> []" "1 \<le> ants"
  shows "\<exists>a chosen. distributeAnts paths ants = Inr a \<and> length chosen = nat ants \<and>
      (\<forall>n < nat ants. spec_choice (spec_costs paths (take n chosen)) (chosen ! n) \<and>
                        map_of a (int n + 1) = Some (paths ! (chosen ! n))) \<and>
      sum_list (ants_per_path paths chosen) = nat ants \<and>
      (\<forall>b. length b = length paths \<and> sum_list b = nat ants \<longrightarrow>
           makespan paths (ants_per_path paths chosen) \<le> makespan paths b)"
proof -
  let ?loads = "map length paths"
  let ?N = "nat ants"
  let ?cs = "choices ?loads ?N"
  let ?a = "assignFrom paths 1 ?cs []"
  have lne: "?loads \<noteq> []" using assms(1) by simp
  have r: "distributeAnts paths ants = Inr ?a"
    unfolding distributeAnts_def using distributeLoop_choices[of ?loads paths ants 1 "[]"] lne by simp
  have bound: "\<forall>i \<in> set ?cs. i < length paths"
    using choices_bound[OF lne] by auto
  have step: "spec_choice (spec_costs paths (take n ?cs)) (?cs ! n) \<and>
      map_of ?a (int n + 1) = Some (paths ! (?cs ! n))" if n: "n < ?N" for n
  proof
    let ?L = "loadsAfter ?loads (take n ?cs)"
    have Lne: "?L \<noteq> []" using lne by (metis length_loadsAfter length_0_conv)
    have c: "?cs ! n = minIndexOf ?L" using n by (rule choices_nth)
    have cost: "spec_costs paths (take n ?cs) ! j = int (?L ! j) - 1" if "j < length paths" for j
      using that by (simp add: spec_costs_def loadsAfter_nth)
    have len: "length (spec_costs paths (take n ?cs)) = length paths" by (simp add: spec_costs_def)
    have m1: "minIndexOf ?L < length paths" using minIndexOf_first_min(1)[OF Lne] by simp
    have m2: "\<forall>j < length paths. ?L ! minIndexOf ?L \<le> ?L ! j"
      using minIndexOf_first_min(2)[OF Lne] by simp
    have m3: "\<forall>j < minIndexOf ?L. ?L ! minIndexOf ?L < ?L ! j"
      using minIndexOf_first_min(3)[OF Lne] by simp
    show "spec_choice (spec_costs paths (take n ?cs)) (?cs ! n)"
      unfolding spec_choice_def len c using m1 m2 m3 cost by auto
    show "map_of ?a (int n + 1) = Some (paths ! (?cs ! n))"
      unfolding assignFrom_map_of using n assms(2) by auto
  qed
  have total: "sum_list (ants_per_path paths ?cs) = ?N"
    unfolding ants_per_path_def using sum_count_list_upt[OF bound] by simp
  have opt: "makespan paths (ants_per_path paths ?cs) \<le> makespan paths b"
    if b: "length b = length paths" "sum_list b = ?N" for b
  proof -
    let ?Mb = "makespan paths b"
    let ?M = "nat (?Mb + 1)"
    have ge: "int (length (paths ! j)) - 1 + int (b ! j) \<le> ?Mb" if "j < length paths" for j
      using makespan_le_iff[OF assms(1) b(1), of ?Mb] that by simp
    have fits: "\<forall>j < length ?loads. ?loads ! j + b ! j \<le> ?M"
    proof (intro allI impI)
      fix j assume "j < length ?loads"
      then have "j < length paths" by simp
      from ge[OF this] show "?loads ! j + b ! j \<le> ?M" using \<open>j < length paths\<close> by simp
    qed
    have "sum_list b \<le> slack ?M ?loads"
      by (rule split_fits_slack) (use b fits in auto)
    then have rm: "?N \<le> slack ?M ?loads" using b(2) by simp
    have below: "\<forall>j < length ?loads. ?loads ! j \<le> ?M" using fits by fastforce
    have fin: "loadsAfter ?loads ?cs ! j \<le> ?M" if "j < length paths" for j
      by (rule greedy_stays_below[OF lne rm below]) (use that in simp)
    have "int (length (paths ! j)) - 1 + int (ants_per_path paths ?cs ! j) \<le> ?Mb"
      if j: "j < length paths" for j
    proof -
      have "loadsAfter ?loads ?cs ! j = length (paths ! j) + count_list ?cs j"
        using j by (simp add: loadsAfter_nth)
      moreover have "ants_per_path paths ?cs ! j = count_list ?cs j"
        using j by (simp add: ants_per_path_def)
      moreover have "0 \<le> ?Mb + 1" using ge[of 0] assms(1) by simp
      ultimately show ?thesis using fin[OF j] by simp
    qed
    then show ?thesis
      by (subst makespan_le_iff[OF assms(1)]) (auto simp: ants_per_path_def)
  qed
  show ?thesis
    using r step total opt by (intro exI[of _ ?a] exI[of _ ?cs]) simp
qed

theorem distributeAnts_greedy_optimal_witness:
  "[[''S'', ''a'', ''T''], [''S'', ''b'', ''c'', ''T'']] \<noteq> [] \<and> (1::int) \<le> 3 \<and>
   (\<exists>a chosen. distributeAnts [[''S'', ''a'', ''T''], [''S'', ''b'', ''c'', ''T'']] 3 = Inr a \<and>
      length chosen = nat 3 \<and>
      (\<forall>n < nat 3. spec_choice
            (spec_costs [[''S'', ''a'', ''T''], [''S'', ''b'', ''c'', ''T'']] (take n chosen)) (chosen ! n) \<and>
          map_of a (int n + 1) = Some ([[''S'', ''a'', ''T''], [''S'', ''b'', ''c'', ''T'']] ! (chosen ! n))) \<and>
      sum_list (ants_per_path [[''S'', ''a'', ''T''], [''S'', ''b'', ''c'', ''T'']] chosen) = nat 3 \<and>
      (\<forall>b. length b = length [[''S'', ''a'', ''T''], [''S'', ''b'', ''c'', ''T'']] \<and> sum_list b = nat 3 \<longrightarrow>
           makespan [[''S'', ''a'', ''T''], [''S'', ''b'', ''c'', ''T'']]
             (ants_per_path [[''S'', ''a'', ''T''], [''S'', ''b'', ''c'', ''T'']] chosen)
           \<le> makespan [[''S'', ''a'', ''T''], [''S'', ''b'', ''c'', ''T'']] b))"
  using distributeAnts_greedy_optimal[of "[[''S'', ''a'', ''T''], [''S'', ''b'', ''c'', ''T'']]" 3]
  by simp

section \<open>The claims about the simulator\<close>

text \<open>
  Claim C6 says that a room an ant leaves in a turn stays closed to the ants processed
  later in that turn.  The code does the opposite: \<^verbatim>\<open>roomFull[currentRoom] = false\<close> runs as
  part of the move.  In the second turn of two ants on the path \<open>A, B, C, D\<close>, ant 1 stands
  on \<open>B\<close> (position 1), moves to \<open>C\<close>, and ant 2, processed after it in the same turn,
  moves into \<open>B\<close>.
\<close>

theorem room_freed_mid_turn_counterexample:
  "antPositions (runTurn ''D'' [(1, [''A'', ''B'', ''C'', ''D'']), (2, [''A'', ''B'', ''C'', ''D''])]
       (\<lambda>_. 0) (\<lambda>_. False)) 1 = 1 \<and>
   roomFull (runTurn ''D'' [(1, [''A'', ''B'', ''C'', ''D'']), (2, [''A'', ''B'', ''C'', ''D''])]
       (\<lambda>_. 0) (\<lambda>_. False)) ''B'' \<and>
   [''A'', ''B'', ''C'', ''D''] ! 1 = ''B'' \<and>
   moveStrings (runTurn ''D'' [(1, [''A'', ''B'', ''C'', ''D'']), (2, [''A'', ''B'', ''C'', ''D''])]
      (antPositions (runTurn ''D'' [(1, [''A'', ''B'', ''C'', ''D'']), (2, [''A'', ''B'', ''C'', ''D''])]
         (\<lambda>_. 0) (\<lambda>_. False)))
      (roomFull (runTurn ''D'' [(1, [''A'', ''B'', ''C'', ''D'']), (2, [''A'', ''B'', ''C'', ''D''])]
         (\<lambda>_. 0) (\<lambda>_. False))))
     = [(1, ''C''), (2, ''B'')]"
  by (simp add: runTurn_def moveAnt_def Let_def)

text \<open>
  Claim C6 as amended.  When an ant moves, the room it leaves is marked free at once, in
  the middle of the turn, and an ant processed next in the same turn whose next room is
  that room moves into it (unless the tunnel it would take is the one recorded for its
  room in this turn).
\<close>

theorem moveAnt_frees_room_at_once:
  assumes "Suc (antPositions st (fst a)) < length (snd a)"
    and "\<not> roomFull st (snd a ! Suc (antPositions st (fst a)))"
    and "tunnelsUsed st (snd a ! antPositions st (fst a)) \<noteq> snd a ! Suc (antPositions st (fst a))"
  shows "moveStrings (moveAnt end st a) = moveStrings st @ [(fst a, snd a ! Suc (antPositions st (fst a)))]
    \<and> \<not> roomFull (moveAnt end st a) (snd a ! antPositions st (fst a))
    \<and> (\<forall>b. fst b \<noteq> fst a \<and> Suc (antPositions st (fst b)) < length (snd b) \<and>
          snd b ! Suc (antPositions st (fst b)) = snd a ! antPositions st (fst a) \<and>
          tunnelsUsed (moveAnt end st a) (snd b ! antPositions st (fst b)) \<noteq> snd a ! antPositions st (fst a)
        \<longrightarrow> moveStrings (moveAnt end (moveAnt end st a) b) =
            moveStrings st @ [(fst a, snd a ! Suc (antPositions st (fst a))), (fst b, snd a ! antPositions st (fst a))])"
proof -
  let ?st' = "moveAnt end st a"
  have m: "moveStrings ?st' = moveStrings st @ [(fst a, snd a ! Suc (antPositions st (fst a)))]"
    using assms by (simp add: moveAnt_def Let_def)
  have f: "\<not> roomFull ?st' (snd a ! antPositions st (fst a))"
    using assms by (simp add: moveAnt_def Let_def)
  have p: "antPositions ?st' = (antPositions st)(fst a := Suc (antPositions st (fst a)))"
    using assms by (simp add: moveAnt_def Let_def)
  have "moveStrings (moveAnt end ?st' b) =
      moveStrings st @ [(fst a, snd a ! Suc (antPositions st (fst a))), (fst b, snd a ! antPositions st (fst a))]"
    if b: "fst b \<noteq> fst a" "Suc (antPositions st (fst b)) < length (snd b)"
      "snd b ! Suc (antPositions st (fst b)) = snd a ! antPositions st (fst a)"
      "tunnelsUsed ?st' (snd b ! antPositions st (fst b)) \<noteq> snd a ! antPositions st (fst a)" for b
  proof -
    have pb: "antPositions ?st' (fst b) = antPositions st (fst b)" using p b(1) by simp
    show ?thesis
      unfolding moveAnt_def[of "end" ?st' b] Let_def pb using b f m by simp
  qed
  then show ?thesis using m f by blast
qed

theorem moveAnt_frees_room_at_once_witness:
  "moveStrings (moveAnt ''D''
      \<lparr>antPositions = (\<lambda>_. 0)(1 := 1), roomFull = (\<lambda>_. False)(''B'' := True),
        tunnelsUsed = (\<lambda>_. []), moveStrings = [], finishedAnts = 0\<rparr>
      (1, [''A'', ''B'', ''C'', ''D''])) = [(1, ''C'')] \<and>
   \<not> roomFull (moveAnt ''D''
      \<lparr>antPositions = (\<lambda>_. 0)(1 := 1), roomFull = (\<lambda>_. False)(''B'' := True),
        tunnelsUsed = (\<lambda>_. []), moveStrings = [], finishedAnts = 0\<rparr>
      (1, [''A'', ''B'', ''C'', ''D''])) ''B'' \<and>
   moveStrings (moveAnt ''D'' (moveAnt ''D''
      \<lparr>antPositions = (\<lambda>_. 0)(1 := 1), roomFull = (\<lambda>_. False)(''B'' := True),
        tunnelsUsed = (\<lambda>_. []), moveStrings = [], finishedAnts = 0\<rparr>
      (1, [''A'', ''B'', ''C'', ''D''])) (2, [''A'', ''B'', ''C'', ''D''])) = [(1, ''C''), (2, ''B'')]"
proof -
  let ?st = "\<lparr>antPositions = (\<lambda>_. 0)(1 := 1), roomFull = (\<lambda>_. False)(''B'' := True),
        tunnelsUsed = (\<lambda>_. []), moveStrings = [], finishedAnts = 0\<rparr>"
  let ?a = "(1::int, [''A'', ''B'', ''C'', ''D''])"
  let ?b = "(2::int, [''A'', ''B'', ''C'', ''D''])"
  have h1: "Suc (antPositions ?st (fst ?a)) < length (snd ?a)" by simp
  have h2: "\<not> roomFull ?st (snd ?a ! Suc (antPositions ?st (fst ?a)))" by simp
  have h3: "tunnelsUsed ?st (snd ?a ! antPositions ?st (fst ?a)) \<noteq> snd ?a ! Suc (antPositions ?st (fst ?a))"
    by simp
  note t = moveAnt_frees_room_at_once[OF h1 h2 h3, of "''D''"]
  have tu: "tunnelsUsed (moveAnt ''D'' ?st ?a) ''A'' = []"
    by (simp add: moveAnt_def Let_def)
  have "moveStrings (moveAnt ''D'' (moveAnt ''D'' ?st ?a) ?b) = [(1, ''C''), (2, ''B'')]"
    using t[THEN conjunct2, THEN conjunct2, THEN spec, of ?b] tu by simp
  then show ?thesis using t by simp
qed

section \<open>The claim about the solution groups\<close>

text \<open>
  Claim C3.  For every graph, in every solution group that \<^verbatim>\<open>calculateSolutionGroups\<close>
  builds from the paths of \<^verbatim>\<open>findShortestPaths\<close>, two paths at different places of the
  group share exactly the start room and the end room, and no other room.
\<close>

theorem solution_groups_disjoint:
  assumes "runtime_ok rt"
    and "grp \<in> set (calculateSolutionGroups (findShortestPaths rt g (StartRoom g)) (StartRoom g) (EndRoom g))"
    and "i < length grp" "j < length grp" "i \<noteq> j"
  shows "set (grp ! i) \<inter> set (grp ! j) = {StartRoom g, EndRoom g}"
proof
  have "pairwiseDisjoint (StartRoom g) (EndRoom g) grp"
    using assms(2) by (rule calculateSolutionGroups_props(1))
  then show "set (grp ! i) \<inter> set (grp ! j) \<subseteq> {StartRoom g, EndRoom g}"
    using assms(3,4,5) by (simp add: pairwiseDisjoint_def)
next
  have sub: "set grp \<subseteq> set (findShortestPaths rt g (StartRoom g))"
    using assms(2) by (rule calculateSolutionGroups_props(2))
  have ms: "mset (sortPaths rt ps) = mset ps" for ps using assms(1) by (simp add: runtime_ok_def)
  have ends: "StartRoom g \<in> set q \<and> EndRoom g \<in> set q" if "q \<in> set grp" for q
  proof -
    have "pathFrom g [StartRoom g] q"
      using findShortestPaths_paths[OF ms] that sub by blast
    then show ?thesis
      by (auto simp: pathFrom_def prefix_def) (metis last_in_set)
  qed
  show "{StartRoom g, EndRoom g} \<subseteq> set (grp ! i) \<inter> set (grp ! j)"
    using ends[of "grp ! i"] ends[of "grp ! j"] assms(3,4) by simp
qed

theorem solution_groups_disjoint_witness:
  "runtime_ok smallRuntime \<and>
   [[''S'', ''a'', ''T''], [''S'', ''b'', ''T'']] \<in>
     set (calculateSolutionGroups (findShortestPaths smallRuntime diamond (StartRoom diamond))
            (StartRoom diamond) (EndRoom diamond)) \<and>
   set ([[''S'', ''a'', ''T''], [''S'', ''b'', ''T'']] ! 0) \<inter>
     set ([[''S'', ''a'', ''T''], [''S'', ''b'', ''T'']] ! 1) = {StartRoom diamond, EndRoom diamond}"
proof -
  have se: "StartRoom diamond = ''S''" "EndRoom diamond = ''T''" by (simp_all add: diamond_def)
  have m: "[[''S'', ''a'', ''T''], [''S'', ''b'', ''T'']] \<in>
     set (calculateSolutionGroups (findShortestPaths smallRuntime diamond (StartRoom diamond))
            (StartRoom diamond) (EndRoom diamond))"
    unfolding se diamond_groups by simp
  show ?thesis
    using solution_groups_disjoint[OF runtime_ok_smallRuntime m, of 0 1] runtime_ok_smallRuntime m
    by simp
qed

section \<open>The claims about the whole program\<close>



section \<open>The claims about parsing and the exit status\<close>

text \<open>The definitions that evaluate \<^verbatim>\<open>readInput\<close> on a given file.\<close>

lemmas parse_simps = readInput_def NewGraph_def hasHashPrefix_def containsDash_def splitDash_def
  Atoi_def isDigit_def digitValue_def digitsValue_def Fields_def spaceWidth_def AddRoom_def AddConnection_def
  connectionsOf_def identicalConnection_def smallRuntime_def Let_def


text \<open>
  An edge that names an unknown room is not rejected either: \<^verbatim>\<open>AddConnection\<close> returns an
  error for it, which \<^verbatim>\<open>readInput\<close> drops, so the line is skipped.
\<close>

lemma unknown_room_edge_accepted:
  "readInput smallRuntime
     (Inr \<lparr> scannedLines = [''1'', ''##start'', ''A 0 0'', ''##end'', ''B 1 0'', ''A-B'', ''A-Q''],
            scanError = None \<rparr>) =
   Inr \<lparr> Rooms = [(''A'', \<lparr> Name = ''A'', X = 0, Y = 0, IsStart = True, IsEnd = False \<rparr>),
                  (''B'', \<lparr> Name = ''B'', X = 1, Y = 0, IsStart = False, IsEnd = True \<rparr>)],
         Connections = [(''A'', [''B'']), (''B'', [''A''])],
         AntCount = 1, StartRoom = ''A'', EndRoom = ''B'' \<rparr>"
  by (simp add: parse_simps)










text \<open>
  Claim C8 wants a non-zero exit status and a message on the error stream for every
  error.  The code prints its messages with \<^verbatim>\<open>fmt.Println\<close>, on standard output; only the
  failure to open the file is reported on the error stream.  A file that declares a room
  twice: status 1, the message on standard output, nothing on the error stream.
\<close>

theorem error_on_stdout_counterexample:
  "main smallRuntime [''lem-in'', ''farm.txt''] duplicateRoomFile =
     Some \<lparr> exitStatus = 1,
            stdout = [''File opened successfully!'', '''', ''ERROR: duplicate room: A''],
            stderr = [] \<rparr>"
  by (simp add: main_def duplicateRoomFile_def banner_def parse_simps)

lemma length_groupsFrom [simp]: "length (groupsFrom i rest paths start end) = length rest"
  by (induction rest arbitrary: i) auto

lemma calculateSolutionGroups_nonempty:
  "paths \<noteq> [] \<Longrightarrow> calculateSolutionGroups paths start end \<noteq> []"
  by (cases paths) (auto simp: calculateSolutionGroups_def)

text \<open>
  Claim C8 as amended.  With a file argument: when the file cannot be opened, or the ant
  count, a connection line, a room line or a coordinate is malformed, or a connection or
  a room is given twice, the process ends with status 1 and a message that begins with
  \<open>ERROR:\<close>, on the error stream for the file that cannot be opened and as the last line
  of standard output for the others; when the program prints a movement log, it ends with
  status 0 and nothing on the error stream.
\<close>

theorem main_exit_status:
  assumes "2 \<le> length args"
  shows "(\<forall>f. readInput rt (files (args ! 1)) = Inl f \<and> (\<forall>l. f \<noteq> SelfReference l) \<and>
              (\<forall>m. f \<noteq> ScanFailed m) \<and> f \<noteq> MissingStartOrEnd \<longrightarrow>
            (\<exists>oc. main rt args files = Some oc \<and> exitStatus oc = 1 \<and>
               (case f of
                  OpenFailed m \<Rightarrow> stdout oc = [] \<and> stderr oc = [''ERROR: '' @ m]
                | _ \<Rightarrow> stderr oc = [] \<and> stdout oc \<noteq> [] \<and> prefix ''ERROR:'' (last (stdout oc))))) \<and>
         (\<forall>graph sols. readInput rt (files (args ! 1)) = Inr graph \<and>
              findShortestPaths rt graph (StartRoom graph) \<noteq> [] \<and>
              collectMoves rt
                (calculateSolutionGroups (findShortestPaths rt graph (StartRoom graph))
                   (StartRoom graph) (EndRoom graph))
                (AntCount graph) (EndRoom graph) = Some (Inr sols) \<longrightarrow>
            (\<exists>oc. main rt args files = Some oc \<and> exitStatus oc = 0 \<and> stderr oc = [] \<and>
               ''Shortest path'' @ [CHR 0x0A] @ pickShortest sols \<in> set (stdout oc)))"
proof (intro conjI allI impI)
  fix f
  assume h: "readInput rt (files (args ! 1)) = Inl f \<and> (\<forall>l. f \<noteq> SelfReference l) \<and>
              (\<forall>m. f \<noteq> ScanFailed m) \<and> f \<noteq> MissingStartOrEnd"
  have m: "main rt args files = Some (readInputExit f)" using assms h by (simp add: main_def)
  have "exitStatus (readInputExit f) = 1 \<and>
               (case f of
                  OpenFailed m \<Rightarrow> stdout (readInputExit f) = [] \<and> stderr (readInputExit f) = [''ERROR: '' @ m]
                | _ \<Rightarrow> stderr (readInputExit f) = [] \<and> stdout (readInputExit f) \<noteq> [] \<and>
                    prefix ''ERROR:'' (last (stdout (readInputExit f))))"
    using h by (cases f) (simp_all add: banner_def)
  then show "\<exists>oc. main rt args files = Some oc \<and> exitStatus oc = 1 \<and>
               (case f of
                  OpenFailed m \<Rightarrow> stdout oc = [] \<and> stderr oc = [''ERROR: '' @ m]
                | _ \<Rightarrow> stderr oc = [] \<and> stdout oc \<noteq> [] \<and> prefix ''ERROR:'' (last (stdout oc)))"
    using m by blast
next
  fix graph sols
  assume h: "readInput rt (files (args ! 1)) = Inr graph \<and>
              findShortestPaths rt graph (StartRoom graph) \<noteq> [] \<and>
              collectMoves rt
                (calculateSolutionGroups (findShortestPaths rt graph (StartRoom graph))
                   (StartRoom graph) (EndRoom graph))
                (AntCount graph) (EndRoom graph) = Some (Inr sols)"
  have g: "calculateSolutionGroups (findShortestPaths rt graph (StartRoom graph))
                   (StartRoom graph) (EndRoom graph) \<noteq> []"
    using h by (intro calculateSolutionGroups_nonempty) simp
  show "\<exists>oc. main rt args files = Some oc \<and> exitStatus oc = 0 \<and> stderr oc = [] \<and>
               ''Shortest path'' @ [CHR 0x0A] @ pickShortest sols \<in> set (stdout oc)"
    using assms h g by (simp add: main_def Let_def)
qed

text \<open>The run on the single-edge file of scenario S1, step by step.\<close>

lemma singleEdge_graph:
  "readInput smallRuntime (singleEdgeFile name) =
   Inr \<lparr> Rooms = [(''A'', \<lparr> Name = ''A'', X = 0, Y = 0, IsStart = True, IsEnd = False \<rparr>),
                  (''B'', \<lparr> Name = ''B'', X = 1, Y = 0, IsStart = False, IsEnd = True \<rparr>)],
         Connections = [(''A'', [''B'']), (''B'', [''A''])],
         AntCount = 1, StartRoom = ''A'', EndRoom = ''B'' \<rparr>"
  by (simp add: singleEdgeFile_def parse_simps)

lemma singleEdge_paths: "findShortestPaths smallRuntime singleEdgeGraph ''A'' = [[''A'', ''B'']]"
  by (simp add: singleEdgeGraph_def findShortestPaths_def connectionsOf_def smallRuntime_def insertionSort_def)

lemma singleEdge_groups: "calculateSolutionGroups [[''A'', ''B'']] ''A'' ''B'' = [[[''A'', ''B'']]]"
  by (simp add: calculateSolutionGroups_def)

lemma singleEdge_assignment: "distributeAnts [[''A'', ''B'']] 1 = Inr [(1, [''A'', ''B''])]"
  by (simp add: distributeAnts_def)

lemma singleEdge_moves: "getAntMoves smallRuntime [(1, [''A'', ''B''])] ''B'' = Some (''L1-B'' @ [CHR 0x0A])"
  by (simp add: getAntMoves_def simulate_def smallRuntime_def insertionSort_def
       turnLoop.simps runTurn_def moveAnt_def Let_def turnLine_def moveString_def showInt_def)

lemma singleEdge_collect:
  "collectMoves smallRuntime [[[''A'', ''B'']]] 1 ''B'' = Some (Inr [''L1-B'' @ [CHR 0x0A]])"
  by (simp add: singleEdge_assignment singleEdge_moves)

lemma singleEdge_fields:
  "StartRoom singleEdgeGraph = ''A''" "EndRoom singleEdgeGraph = ''B''" "AntCount singleEdgeGraph = 1"
  by (simp_all add: singleEdgeGraph_def)

lemma singleEdge_run:
  "main smallRuntime [''lem-in'', ''farm.txt''] singleEdgeFile =
     Some \<lparr> exitStatus = 0,
            stdout = [''File opened successfully!'', [], ''Number of ants: 1'',
                      ''All paths found:'', ''Path 1: A ->B'', [],
                      ''Shortest path'' @ [CHR 0x0A] @ ''L1-B'' @ [CHR 0x0A], ''Here you go!'',
                      ''Quickest path with 1 turns''],
            stderr = [] \<rparr>"
  by (simp add: main_def singleEdge_graph[folded singleEdgeGraph_def] singleEdge_fields singleEdge_paths
      singleEdge_groups singleEdge_collect Let_def banner_def showInt_def pickShortest_def countNewlines_def
      del: collectMoves.simps)

theorem main_exit_status_witness:
  "2 \<le> length [''lem-in'', ''farm.txt''] \<and>
   readInput smallRuntime (duplicateRoomFile ''farm.txt'') = Inl (RoomRejected ''duplicate room: A'') \<and>
   (\<exists>oc. main smallRuntime [''lem-in'', ''farm.txt''] duplicateRoomFile = Some oc \<and> exitStatus oc = 1 \<and>
      stderr oc = [] \<and> stdout oc \<noteq> [] \<and> prefix ''ERROR:'' (last (stdout oc))) \<and>
   readInput smallRuntime (missingFile ''farm.txt'') =
     Inl (OpenFailed ''open farm.txt: no such file or directory'') \<and>
   (\<exists>oc. main smallRuntime [''lem-in'', ''farm.txt''] missingFile = Some oc \<and> exitStatus oc = 1 \<and>
      stdout oc = [] \<and> stderr oc = [''ERROR: open farm.txt: no such file or directory'']) \<and>
   readInput smallRuntime (singleEdgeFile ''farm.txt'') = Inr singleEdgeGraph \<and>
   (\<exists>oc. main smallRuntime [''lem-in'', ''farm.txt''] singleEdgeFile = Some oc \<and> exitStatus oc = 0 \<and>
      stderr oc = [] \<and> ''Shortest path'' @ [CHR 0x0A] @ ''L1-B'' @ [CHR 0x0A] \<in> set (stdout oc))"
proof -
  let ?args = "[''lem-in'', ''farm.txt'']"
  have a: "2 \<le> length ?args" by simp
  have d: "readInput smallRuntime (duplicateRoomFile (?args ! 1)) = Inl (RoomRejected ''duplicate room: A'')"
    by (simp add: duplicateRoomFile_def parse_simps)
  have m: "readInput smallRuntime (missingFile (?args ! 1)) =
      Inl (OpenFailed ''open farm.txt: no such file or directory'')"
    by (simp add: missingFile_def readInput_def)
  have s: "readInput smallRuntime (singleEdgeFile (?args ! 1)) = Inr singleEdgeGraph"
    by (simp add: singleEdge_graph singleEdgeGraph_def)
  have p: "findShortestPaths smallRuntime singleEdgeGraph (StartRoom singleEdgeGraph) \<noteq> []"
    by (simp add: singleEdge_fields singleEdge_paths)
  have c: "collectMoves smallRuntime
      (calculateSolutionGroups (findShortestPaths smallRuntime singleEdgeGraph (StartRoom singleEdgeGraph))
         (StartRoom singleEdgeGraph) (EndRoom singleEdgeGraph))
      (AntCount singleEdgeGraph) (EndRoom singleEdgeGraph) = Some (Inr [''L1-B'' @ [CHR 0x0A]])"
    by (simp add: singleEdge_fields singleEdge_paths singleEdge_groups singleEdge_collect
        del: collectMoves.simps)
  have 1: "\<exists>oc. main smallRuntime ?args duplicateRoomFile = Some oc \<and> exitStatus oc = 1 \<and>
      stderr oc = [] \<and> stdout oc \<noteq> [] \<and> prefix ''ERROR:'' (last (stdout oc))"
    using main_exit_status[OF a, of smallRuntime duplicateRoomFile, THEN conjunct1, rule_format,
        of "RoomRejected ''duplicate room: A''"] d
    by simp
  have 2: "\<exists>oc. main smallRuntime ?args missingFile = Some oc \<and> exitStatus oc = 1 \<and>
      stdout oc = [] \<and> stderr oc = [''ERROR: open farm.txt: no such file or directory'']"
    using main_exit_status[OF a, of smallRuntime missingFile, THEN conjunct1, rule_format,
        of "OpenFailed ''open farm.txt: no such file or directory''"] m
    by simp
  have 3: "\<exists>oc. main smallRuntime ?args singleEdgeFile = Some oc \<and> exitStatus oc = 0 \<and>
      stderr oc = [] \<and> ''Shortest path'' @ [CHR 0x0A] @ ''L1-B'' @ [CHR 0x0A] \<in> set (stdout oc)"
    using main_exit_status[OF a, of smallRuntime singleEdgeFile, THEN conjunct2, rule_format,
        of singleEdgeGraph "[''L1-B'' @ [CHR 0x0A]]"] s p c
    by (simp add: pickShortest_def)
  show ?thesis using a d m s 1 2 3 by simp
qed

theorem turnLoop_diverges_example:
  "getAntMoves smallRuntime [(1, [''S'', ''a'', ''b'', ''T'']), (2, [''S'', ''b'', ''a'', ''T''])] ''T'' = None"
proof -
  let ?as = "[(1::int, [''S'', ''a'', ''b'', ''T'']), (2, [''S'', ''b'', ''a'', ''T''])]"
  let ?p = "(\<lambda>_. 0::nat)(1 := Suc 0, 2 := Suc 0)"
  let ?f = "(\<lambda>_. False)(''a'' := True, ''b'' := True, ''S'' := False)"
  have srt: "sortAssignments smallRuntime (rangeAssignment smallRuntime ?as) = ?as"
    by (simp add: smallRuntime_def insertionSort_def)
  have t1: "runTurn ''T'' ?as (\<lambda>_. 0) (\<lambda>_. False) =
      \<lparr>antPositions = ?p, roomFull = ?f, tunnelsUsed = (\<lambda>_. [])(''S'' := ''b''),
       moveStrings = [(1, ''a''), (2, ''b'')], finishedAnts = 0\<rparr>"
    by (simp add: runTurn_def moveAnt_def Let_def)
  have s: "stuck ''T'' ?as ?p ?f"
    by (simp add: stuck_def runTurn_def moveAnt_def Let_def)
  have "turnLoop ''T'' ?as (\<lambda>_. 0) (\<lambda>_. False) [] = turnLoop ''T'' ?as ?p ?f [[(1, ''a''), (2, ''b'')]]"
    by (subst turnLoop.simps) (simp add: t1 Let_def)
  also have "\<dots> = None" using s by (rule turnLoop_stuck_None)
  finally show ?thesis by (simp add: getAntMoves_def simulate_def srt)
qed

end
